theory Spec2Isabelle
  imports Main "HOL-Library.Multiset"
begin

section \<open>Path ORAM simulator: the engine of path_oram_sim_py38.py\<close>

text \<open>
  The Python class \<open>PathORAM\<close> keeps a flat array of buckets (\<open>self.tree\<close>), a position
  map (\<open>self.position\<close>) and a stash (\<open>self.stash\<close>, a dict, which iterates in insertion
  order). Every method mutates the object; here each method takes the object and returns
  it updated. A method that can raise returns the exception or its value, together with
  the object as the exception left it.

  Python's module-wide generator \<open>random\<close> is not part of the repository. Its state is a
  value of an arbitrary type \<open>'g\<close> that is threaded through every call, and the four
  functions the simulator calls are the fields of a record.
\<close>

subsection \<open>Values, exceptions, the random source\<close>

datatype error = AssertionError | IndexError | KeyError

text \<open>The payloads the simulator stores: a block id, \<open>None\<close>, a string, a pair
  \<open>(a, version)\<close>.\<close>

datatype pyval = PyNone | PyInt int | PyStr string | PyPair int int

type_synonym block = "nat \<times> pyval"

record 'g rng =
  seed_rng :: "int \<Rightarrow> 'g"
  randrange :: "nat \<Rightarrow> 'g \<Rightarrow> nat \<times> 'g"
  shuffle :: "nat list \<Rightarrow> 'g \<Rightarrow> nat list \<times> 'g"
  getrandbits :: "nat \<Rightarrow> 'g \<Rightarrow> nat \<times> 'g"

text \<open>What the Python library promises of \<open>randrange\<close> and \<open>shuffle\<close>: a value below the
  bound, and a rearrangement of the list.\<close>

definition rng_ok :: "'g rng \<Rightarrow> bool" where
  "rng_ok R \<longleftrightarrow>
     (\<forall>n g. 0 < n \<longrightarrow> fst (randrange R n g) < n) \<and>
     (\<forall>xs g. mset (fst (shuffle R xs g)) = mset xs)"

subsection \<open>The dict operations the stash uses\<close>

text \<open>\<open>d[k] = v\<close>: an existing key keeps its place, a new key goes to the end.\<close>

fun dict_set :: "nat \<Rightarrow> 'v \<Rightarrow> (nat \<times> 'v) list \<Rightarrow> (nat \<times> 'v) list" where
  "dict_set k v [] = [(k, v)]"
| "dict_set k v (kv # kvs) =
     (if fst kv = k then (k, v) # kvs else kv # dict_set k v kvs)"

text \<open>\<open>d.get(k, default)\<close>.\<close>

definition dict_get :: "(nat \<times> 'v) list \<Rightarrow> nat \<Rightarrow> 'v \<Rightarrow> 'v" where
  "dict_get d k dflt = (case map_of d k of Some v \<Rightarrow> v | None \<Rightarrow> dflt)"

text \<open>\<open>d.pop(k)\<close>: the value and the dict without the key, or \<open>KeyError\<close>.\<close>

definition dict_pop :: "(nat \<times> 'v) list \<Rightarrow> nat \<Rightarrow> error + ('v \<times> (nat \<times> 'v) list)" where
  "dict_pop d k =
     (case map_of d k of
        None \<Rightarrow> Inl KeyError
      | Some v \<Rightarrow> Inr (v, filter (\<lambda>kv. fst kv \<noteq> k) d))"

subsection \<open>Tree addressing\<close>

definition node_index :: "nat \<Rightarrow> nat \<Rightarrow> nat" where
  "node_index level idx = push_bit level 1 - 1 + idx"

definition path_nodes :: "nat \<Rightarrow> nat \<Rightarrow> (nat \<times> nat) list" where
  "path_nodes Lv leaf_x =
     map (\<lambda>l. (l, if l > 0 then drop_bit (Lv - l) leaf_x else 0)) [0..<Lv + 1]"

definition same_subtree_at_level :: "nat \<Rightarrow> nat \<Rightarrow> nat \<Rightarrow> nat \<Rightarrow> bool" where
  "same_subtree_at_level Lv leaf_a leaf_b level =
     (if level = 0 then True
      else drop_bit (Lv - level) leaf_a = drop_bit (Lv - level) leaf_b)"

subsection \<open>The engine\<close>

record oram =
  N :: nat
  Z :: nat
  L :: nat
  num_nodes :: nat
  tree :: "block list list"
  leaf_space :: nat
  position :: "nat list"
  stash :: "block list"

text \<open>The inner loop of \<open>_initial_place_blocks\<close>: from the leaf up, the first bucket with
  room takes the block; the result is the flag \<open>placed\<close>.\<close>

fun try_place :: "nat \<Rightarrow> nat \<Rightarrow> nat list \<Rightarrow> oram \<Rightarrow> (error + bool) \<times> oram" where
  "try_place a leaf [] s = (Inr False, s)"
| "try_place a leaf (l # ls) s =
     (let idx = (if l > 0 then drop_bit (L s - l) leaf else 0);
          i = node_index l idx
      in if \<not> i < length (tree s) then (Inl IndexError, s)
         else if length (tree s ! i) < Z s
           then (Inr True, s\<lparr>tree := (tree s)[i := tree s ! i @ [(a, PyInt (int a))]]\<rparr>)
           else try_place a leaf ls s)"

fun place_blocks :: "nat list \<Rightarrow> oram \<Rightarrow> (error + unit) \<times> oram" where
  "place_blocks [] s = (Inr (), s)"
| "place_blocks (a # as) s =
     (if \<not> a < length (position s) then (Inl IndexError, s)
      else case try_place a (position s ! a) (rev [0..<L s + 1]) s of
             (Inl e, s') \<Rightarrow> (Inl e, s')
           | (Inr placed, s') \<Rightarrow>
               place_blocks as
                 (if \<not> placed then s'\<lparr>stash := dict_set a (PyInt (int a)) (stash s')\<rparr>
                  else s'))"

definition initial_place_blocks :: "'g rng \<Rightarrow> 'g \<times> oram \<Rightarrow> (error + unit) \<times> 'g \<times> oram" where
  "initial_place_blocks R gs =
     (case gs of (g, s) \<Rightarrow>
        (case shuffle R [0..<N s] g of (order, g') \<Rightarrow>
           (case place_blocks order s of (r, s') \<Rightarrow> (r, g', s'))))"

text \<open>\<open>[random.randrange(leaf_space) for _ in range(N)]\<close>.\<close>

fun draw_positions :: "'g rng \<Rightarrow> nat \<Rightarrow> nat \<Rightarrow> 'g \<Rightarrow> nat list \<times> 'g" where
  "draw_positions R m 0 g = ([], g)"
| "draw_positions R m (Suc k) g =
     (case randrange R m g of (p, g1) \<Rightarrow>
        (case draw_positions R m k g1 of (ps, g2) \<Rightarrow> (p # ps, g2)))"

text \<open>\<open>PathORAM(N, Z, L, seed)\<close>. The result is the object or the exception, and the
  state of the random source afterwards. The three assertions come before anything is
  assigned or drawn; \<open>and\<close> does not evaluate \<open>1 << L\<close> when \<open>L < 1\<close>.\<close>

definition PathORAM :: "'g rng \<Rightarrow> int \<Rightarrow> int \<Rightarrow> int \<Rightarrow> int option \<Rightarrow> 'g \<Rightarrow> (error + oram) \<times> 'g" where
  "PathORAM R n z lv seed g =
     (if \<not> n > 0 then (Inl AssertionError, g)
      else if \<not> z > 0 then (Inl AssertionError, g)
      else if \<not> (lv \<ge> 1 \<and> push_bit (nat lv) 1 \<ge> n) then (Inl AssertionError, g)
      else
        let nodes = push_bit (nat lv + 1) 1 - 1;
            g1 = (case seed of Some sd \<Rightarrow> seed_rng R sd | None \<Rightarrow> g);
            leaves = push_bit (nat lv) 1
        in case draw_positions R leaves (nat n) g1 of (pos, g2) \<Rightarrow>
             (case initial_place_blocks R
                     (g2, \<lparr>N = nat n, Z = nat z, L = nat lv, num_nodes = nodes,
                           tree = replicate nodes [], leaf_space = leaves,
                           position = pos, stash = []\<rparr>) of
                (Inl e, g3, s) \<Rightarrow> (Inl e, g3)
              | (Inr u, g3, s) \<Rightarrow> (Inr s, g3)))"

text \<open>Step 3 of \<open>access\<close>: every bucket on the path goes into the stash and is cleared.\<close>

fun read_path :: "(nat \<times> nat) list \<Rightarrow> oram \<Rightarrow> (error + unit) \<times> oram" where
  "read_path [] s = (Inr (), s)"
| "read_path (node # nodes) s =
     (let i = node_index (fst node) (snd node)
      in if \<not> i < length (tree s) then (Inl IndexError, s)
         else read_path nodes
                (s\<lparr>stash := fold (\<lambda>blk st. dict_set (fst blk) (snd blk) st) (tree s ! i) (stash s),
                   tree := (tree s)[i := []]\<rparr>))"

text \<open>The scan of \<open>list(self.stash.keys())\<close> at one level: it stops as soon as
  \<open>chosen\<close> has \<open>capacity\<close> entries.\<close>

fun scan_stash :: "oram \<Rightarrow> nat \<Rightarrow> nat \<Rightarrow> nat \<Rightarrow> nat list \<Rightarrow> nat list \<Rightarrow> error + nat list" where
  "scan_stash s x l capacity [] chosen = Inr chosen"
| "scan_stash s x l capacity (bid # bids) chosen =
     (if \<not> bid < length (position s) then Inl IndexError
      else if same_subtree_at_level (L s) (position s ! bid) x l
        then (if length (chosen @ [bid]) = capacity then Inr (chosen @ [bid])
              else scan_stash s x l capacity bids (chosen @ [bid]))
        else scan_stash s x l capacity bids chosen)"

text \<open>\<open>for bid in chosen: bucket.append((bid, self.stash.pop(bid)))\<close>.\<close>

fun move_chosen :: "nat \<Rightarrow> nat list \<Rightarrow> oram \<Rightarrow> (error + unit) \<times> oram" where
  "move_chosen i [] s = (Inr (), s)"
| "move_chosen i (bid # bids) s =
     (case dict_pop (stash s) bid of
        Inl e \<Rightarrow> (Inl e, s)
      | Inr (v, st) \<Rightarrow>
          move_chosen i bids (s\<lparr>stash := st, tree := (tree s)[i := tree s ! i @ [(bid, v)]]\<rparr>))"

text \<open>Step 5 of \<open>access\<close>: eviction along the path of \<open>x\<close>, over the levels given
  (\<open>range(L, -1, -1)\<close>).\<close>

fun evict :: "nat \<Rightarrow> nat list \<Rightarrow> oram \<Rightarrow> (error + unit) \<times> oram" where
  "evict x [] s = (Inr (), s)"
| "evict x (l # ls) s =
     (let idx = (if l > 0 then drop_bit (L s - l) x else 0);
          i = node_index l idx
      in if \<not> i < length (tree s) then (Inl IndexError, s)
         else if length (tree s ! i) \<ge> Z s then evict x ls s
         else
           (case scan_stash s x l (Z s - length (tree s ! i)) (map fst (stash s)) [] of
              Inl e \<Rightarrow> (Inl e, s)
            | Inr chosen \<Rightarrow>
                (case move_chosen i chosen s of
                   (Inl e, s') \<Rightarrow> (Inl e, s')
                 | (Inr u, s') \<Rightarrow> evict x ls s')))"

text \<open>The object between step 2 and step 3: the position of \<open>a\<close> resampled.\<close>

definition resample :: "'g rng \<Rightarrow> nat \<Rightarrow> 'g \<times> oram \<Rightarrow> 'g \<times> oram" where
  "resample R a gs =
     (case gs of (g, s) \<Rightarrow>
        (case randrange R (leaf_space s) g of (r, g') \<Rightarrow>
           (g', s\<lparr>position := (position s)[a := r]\<rparr>)))"

text \<open>\<open>access(op, a, new_data)\<close>: the returned value or the exception, the random source
  and the object afterwards.\<close>

definition access :: "'g rng \<Rightarrow> string \<Rightarrow> int \<Rightarrow> pyval \<Rightarrow> 'g \<times> oram \<Rightarrow> (error + pyval) \<times> 'g \<times> oram" where
  "access R op a new_data gs =
     (case gs of (g, s) \<Rightarrow>
        if \<not> (0 \<le> a \<and> a < int (N s)) then (Inl AssertionError, g, s)
        else if \<not> (op = ''read'' \<or> op = ''write'') then (Inl AssertionError, g, s)
        else if \<not> nat a < length (position s) then (Inl IndexError, g, s)
        else
          let x = position s ! nat a
          in case resample R (nat a) (g, s) of (g', s1) \<Rightarrow>
               (case read_path (path_nodes (L s1) x) s1 of
                  (Inl e, s2) \<Rightarrow> (Inl e, g', s2)
                | (Inr u, s2) \<Rightarrow>
                    (let old_data = dict_get (stash s2) (nat a) (PyInt a);
                         s3 = (if op = ''write''
                               then s2\<lparr>stash := dict_set (nat a) new_data (stash s2)\<rparr>
                               else s2)
                     in (case evict x (rev [0..<L s3 + 1]) s3 of
                           (Inl e, s4) \<Rightarrow> (Inl e, g', s4)
                         | (Inr u, s4) \<Rightarrow> (Inr old_data, g', s4)))))"

subsection \<open>The simulation harness\<close>

text \<open>The loop of \<open>simulate\<close> over \<open>t\<close> in \<open>range(total_ops)\<close>. Its local variables are
  the triple \<open>(versions, recorded_stash_sizes, block)\<close>.\<close>

fun simulate_loop ::
  "'g rng \<Rightarrow> nat \<Rightarrow> nat list \<Rightarrow> int list \<times> nat list \<times> nat \<Rightarrow> 'g \<times> oram
     \<Rightarrow> (error + int list \<times> nat list \<times> nat) \<times> 'g \<times> oram" where
  "simulate_loop R warmup_ops [] st gs = (Inr st, gs)"
| "simulate_loop R warmup_ops (t # ts) st gs =
     (case st of (versions, recorded, blk) \<Rightarrow>
      (case gs of (g, s) \<Rightarrow>
      (case getrandbits R 1 g of (rbit, g1) \<Rightarrow>
        (let a = blk;
             blk' = (if blk + 1 = N s then 0 else blk + 1)
         in if rbit \<noteq> 0 then
              (if \<not> a < length versions then (Inl IndexError, g1, s)
               else
                 (let versions' = versions[a := versions ! a + 1]
                  in (case access R ''write'' (int a) (PyPair (int a) (versions' ! a)) (g1, s) of
                        (Inl e, gs') \<Rightarrow> (Inl e, gs')
                      | (Inr old, g2, s2) \<Rightarrow>
                          simulate_loop R warmup_ops ts
                            (versions',
                             if t \<ge> warmup_ops then recorded @ [length (stash s2)] else recorded,
                             blk') (g2, s2))))
            else
              (case access R ''read'' (int a) PyNone (g1, s) of
                 (Inl e, gs') \<Rightarrow> (Inl e, gs')
               | (Inr old, g2, s2) \<Rightarrow>
                   simulate_loop R warmup_ops ts
                     (versions,
                      if t \<ge> warmup_ops then recorded @ [length (stash s2)] else recorded,
                      blk') (g2, s2))))))"

text \<open>\<open>for val in recorded_stash_sizes: hist[val] += 1\<close>.\<close>

fun build_hist :: "nat list \<Rightarrow> nat list \<Rightarrow> error + nat list" where
  "build_hist [] hist = Inr hist"
| "build_hist (val # vals) hist =
     (if \<not> val < length hist then Inl IndexError
      else build_hist vals (hist[val := hist ! val + 1]))"

text \<open>\<open>for k in range(max_stash, -1, -1): running += hist[k]; suffix_ge[k] = running\<close>.\<close>

fun build_suffix :: "nat list \<Rightarrow> nat list \<Rightarrow> nat list \<times> nat \<Rightarrow> error + nat list \<times> nat" where
  "build_suffix hist [] acc = Inr acc"
| "build_suffix hist (k # ks) acc =
     (case acc of (suffix_ge, running) \<Rightarrow>
        if \<not> k < length hist then Inl IndexError
        else if \<not> k < length suffix_ge then Inl IndexError
        else build_suffix hist ks (suffix_ge[k := running + hist ! k], running + hist ! k))"

text \<open>\<open>for i in range(0, max_stash + 1): tail_counts[i] = ...\<close>.\<close>

fun build_tail :: "nat \<Rightarrow> nat list \<Rightarrow> nat list \<Rightarrow> (nat \<times> nat) list \<Rightarrow> error + (nat \<times> nat) list" where
  "build_tail max_stash suffix_ge [] tail_counts = Inr tail_counts"
| "build_tail max_stash suffix_ge (i # rest) tail_counts =
     (if i + 1 \<le> max_stash then
        (if \<not> i + 1 < length suffix_ge then Inl IndexError
         else build_tail max_stash suffix_ge rest (dict_set i (suffix_ge ! (i + 1)) tail_counts))
      else build_tail max_stash suffix_ge rest (dict_set i 0 tail_counts))"

text \<open>The post-processing of \<open>simulate\<close>: \<open>(tail_counts, max_stash, len(recorded_stash_sizes))\<close>.\<close>

definition tail_stats :: "nat list \<Rightarrow> error + (nat \<times> nat) list \<times> nat \<times> nat" where
  "tail_stats recorded =
     (let max_stash = (if recorded \<noteq> [] then Max (set recorded) else 0)
      in case build_hist recorded (replicate (max_stash + 1) 0) of
           Inl e \<Rightarrow> Inl e
         | Inr hist \<Rightarrow>
             (case build_suffix hist (rev [0..<max_stash + 1]) (replicate (max_stash + 2) 0, 0) of
                Inl e \<Rightarrow> Inl e
              | Inr (suffix_ge, running) \<Rightarrow>
                  (case build_tail max_stash suffix_ge [0..<max_stash + 1] [] of
                     Inl e \<Rightarrow> Inl e
                   | Inr tail_counts \<Rightarrow> Inr (tail_counts, max_stash, length recorded))))"

text \<open>\<open>simulate(total_ops, warmup_ops)\<close> with \<open>record_file = None\<close>.\<close>

definition simulate ::
  "'g rng \<Rightarrow> int \<Rightarrow> int \<Rightarrow> 'g \<times> oram \<Rightarrow> (error + (nat \<times> nat) list \<times> nat \<times> nat) \<times> 'g \<times> oram" where
  "simulate R total_ops warmup_ops gs =
     (case gs of (g, s) \<Rightarrow>
        if \<not> (total_ops > warmup_ops \<and> warmup_ops \<ge> 0) then (Inl AssertionError, g, s)
        else
          (case simulate_loop R (nat warmup_ops) [0..<nat total_ops] (replicate (N s) 0, [], 0) (g, s) of
             (Inl e, gs') \<Rightarrow> (Inl e, gs')
           | (Inr (versions, recorded, blk), gs') \<Rightarrow>
               (case tail_stats recorded of
                  Inl e \<Rightarrow> (Inl e, gs')
                | Inr r \<Rightarrow> (Inr r, gs'))))"

subsection \<open>States, invariants, runs\<close>

text \<open>Every \<open>(block_id, data)\<close> pair the object holds: the buckets in array order, then the
  stash.\<close>

definition all_blocks :: "oram \<Rightarrow> block list" where
  "all_blocks s = concat (tree s) @ stash s"

definition conserved :: "oram \<Rightarrow> bool" where
  "conserved s \<longleftrightarrow> mset (map fst (all_blocks s)) = mset [0..<N s]"

definition capacity_ok :: "oram \<Rightarrow> bool" where
  "capacity_ok s \<longleftrightarrow> (\<forall>b \<in> set (tree s). length b \<le> Z s)"

text \<open>The array indices of the buckets on the path to a leaf.\<close>

definition path_indices :: "nat \<Rightarrow> nat \<Rightarrow> nat list" where
  "path_indices Lv leaf = map (\<lambda>node. node_index (fst node) (snd node)) (path_nodes Lv leaf)"

definition subtree_ok :: "oram \<Rightarrow> bool" where
  "subtree_ok s \<longleftrightarrow>
     (\<forall>i < length (tree s). \<forall>blk \<in> set (tree s ! i).
        i \<in> set (path_indices (L s) (position s ! fst blk)))"

text \<open>The same, as the specification words it: a block in the bucket at \<open>(l, idx)\<close>,
  \<open>l > 0\<close>, has \<open>position[bid] >> (L - l) == idx\<close>.\<close>

definition subtree_correct :: "oram \<Rightarrow> bool" where
  "subtree_correct s \<longleftrightarrow>
     (\<forall>l \<in> set [0..<L s + 1]. \<forall>idx \<in> set [0..<2 ^ l].
        \<forall>blk \<in> set (tree s ! node_index l idx).
          l > 0 \<longrightarrow> drop_bit (L s - l) (position s ! fst blk) = idx)"

definition shape_ok :: "oram \<Rightarrow> bool" where
  "shape_ok s \<longleftrightarrow>
     0 < N s \<and> 0 < Z s \<and> 1 \<le> L s \<and> N s \<le> 2 ^ L s \<and>
     num_nodes s = 2 ^ (L s + 1) - 1 \<and> length (tree s) = num_nodes s \<and>
     leaf_space s = 2 ^ L s \<and> length (position s) = N s \<and>
     (\<forall>p \<in> set (position s). p < 2 ^ L s)"

definition engine_inv :: "oram \<Rightarrow> bool" where
  "engine_inv s \<longleftrightarrow> shape_ok s \<and> conserved s \<and> capacity_ok s \<and> subtree_ok s"

text \<open>What a step of \<open>access\<close> that only moves blocks leaves alone.\<close>

definition same_params :: "oram \<Rightarrow> oram \<Rightarrow> bool" where
  "same_params s s' \<longleftrightarrow>
     N s' = N s \<and> Z s' = Z s \<and> L s' = L s \<and> num_nodes s' = num_nodes s \<and>
     leaf_space s' = leaf_space s \<and> position s' = position s \<and>
     length (tree s') = length (tree s)"

text \<open>The objects a program can hold: one that the constructor returned, and any that a
  returning \<open>access\<close> left behind. The random source may have been used in between, so
  its state at each call is arbitrary.\<close>

inductive reachable :: "'g rng \<Rightarrow> oram \<Rightarrow> bool" for R :: "'g rng" where
  constructed: "PathORAM R n z lv seed g = (Inr s, g') \<Longrightarrow> reachable R s"
| accessed: "reachable R s \<Longrightarrow> access R op a new_data (g, s) = (Inr old, g', s') \<Longrightarrow> reachable R s'"

text \<open>A sequence of calls of \<open>access\<close> on one object, stopping at the first exception, and
  a whole run: construction, the calls, the returned values and the final stash size.\<close>

fun access_all ::
  "'g rng \<Rightarrow> (string \<times> int \<times> pyval) list \<Rightarrow> 'g \<times> oram \<Rightarrow> (error + pyval list) \<times> 'g \<times> oram" where
  "access_all R [] gs = (Inr [], gs)"
| "access_all R (c # cs) gs =
     (case c of (op, a, new_data) \<Rightarrow>
        (case access R op a new_data gs of
           (Inl e, gs') \<Rightarrow> (Inl e, gs')
         | (Inr old, gs') \<Rightarrow>
             (case access_all R cs gs' of
                (Inl e, gs'') \<Rightarrow> (Inl e, gs'')
              | (Inr olds, gs'') \<Rightarrow> (Inr (old # olds), gs''))))"

definition run ::
  "'g rng \<Rightarrow> int \<Rightarrow> int \<Rightarrow> int \<Rightarrow> int option \<Rightarrow> (string \<times> int \<times> pyval) list \<Rightarrow> 'g
     \<Rightarrow> error + pyval list \<times> nat" where
  "run R n z lv seed cs g =
     (case PathORAM R n z lv seed g of
        (Inl e, g') \<Rightarrow> Inl e
      | (Inr s, g') \<Rightarrow>
          (case access_all R cs (g', s) of
             (Inl e, gs') \<Rightarrow> Inl e
           | (Inr olds, g'', s') \<Rightarrow> Inr (olds, length (stash s'))))"

text \<open>A small random source to run the engine on: the state is a counter.\<close>

definition counter_rng :: "nat rng" where
  "counter_rng =
     \<lparr>seed_rng = (\<lambda>sd. nat \<bar>sd\<bar>),
      randrange = (\<lambda>n g. (g mod n, g + 1)),
      shuffle = (\<lambda>xs g. (rev xs, g + 1)),
      getrandbits = (\<lambda>k g. (g mod 2 ^ k, g + 1))\<rparr>"

text \<open>The engine that \<open>PathORAM(4, 2, 2, seed=1)\<close> builds over the counter source.\<close>

definition example_engine :: oram where
  "example_engine =
     \<lparr>N = 4, Z = 2, L = 2, num_nodes = 7,
      tree = [[], [], [], [(3, PyInt 3)], [(0, PyInt 0)], [(1, PyInt 1)], [(2, PyInt 2)]],
      leaf_space = 4, position = [1, 2, 3, 0], stash = []\<rparr>"

section \<open>Lemmas about the engine\<close>

subsection \<open>Arithmetic of node indices, dict operations\<close>

lemma node_index_eq: "node_index l idx = 2 ^ l - 1 + idx"
  by (simp add: node_index_def)

lemma drop_bit_leaf_less:
  assumes "leaf < 2 ^ lv" "l \<le> lv"
  shows "drop_bit (lv - l) leaf < (2::nat) ^ l"
proof -
  have "leaf < 2 ^ (lv - l) * 2 ^ l"
    using assms by (simp flip: power_add)
  then show ?thesis
    by (simp add: drop_bit_eq_div less_mult_imp_div_less mult.commute)
qed

lemma node_index_less:
  assumes "l \<le> lv" "idx < 2 ^ l"
  shows "node_index l idx < 2 ^ (lv + 1) - 1"
proof -
  have "(2::nat) ^ l \<le> 2 ^ lv" using assms(1) by simp
  then have "(2::nat) ^ l + 2 ^ l \<le> 2 ^ lv + 2 ^ lv" by linarith
  then have "(2::nat) ^ l + 2 ^ l \<le> 2 ^ (lv + 1)" by simp
  moreover have "(1::nat) \<le> 2 ^ l" by simp
  ultimately show ?thesis using assms(2) unfolding node_index_eq by linarith
qed

lemma node_index_inj:
  assumes "node_index l idx = node_index l' idx'" "idx < 2 ^ l" "idx' < 2 ^ l'"
  shows "l = l' \<and> idx = idx'"
proof -
  have aux: "False" if "a < b" "node_index a i = node_index b j" "i < 2 ^ a" for a b i j
  proof -
    have "(2::nat) ^ (a + 1) \<le> 2 ^ b" using that(1) by (intro power_increasing) auto
    moreover have "(1::nat) \<le> 2 ^ a" by simp
    ultimately show False using that(2,3) unfolding node_index_eq by simp
  qed
  have "l = l'"
    using aux[of l l' idx idx'] aux[of l' l idx' idx] assms by (cases l l' rule: linorder_cases) auto
  moreover have "idx = idx'" using assms(1) unfolding node_index_eq \<open>l = l'\<close> by (rule add_left_imp_eq)
  ultimately show ?thesis by simp
qed

lemma dict_set_keys:
  "map fst (dict_set k v d) = (if k \<in> fst ` set d then map fst d else map fst d @ [k])"
  by (induction d) auto

lemma dict_set_new: "k \<notin> fst ` set d \<Longrightarrow> dict_set k v d = d @ [(k, v)]"
  by (induction d) auto

lemma dict_set_map_of: "map_of (dict_set k v d) = (map_of d)(k \<mapsto> v)"
  by (induction d) (auto simp: fun_eq_iff)

lemma dict_set_old:
  "distinct (map fst d) \<Longrightarrow> (k, w) \<in> set d \<Longrightarrow> mset (dict_set k v d) = add_mset (k, v) (mset d - {#(k, w)#})"
  by (induction d) (auto simp: rev_image_eqI)

lemma mset_concat_update:
  "i < length xs \<Longrightarrow> mset (concat (xs[i := b])) + mset (xs ! i) = mset (concat xs) + mset b"
  by (induction xs arbitrary: i) (auto split: nat.splits)

subsection \<open>Paths and the path read\<close>

lemma path_indices_iff:
  "i \<in> set (path_indices lv leaf) \<longleftrightarrow>
     (\<exists>l \<le> lv. i = node_index l (if l > 0 then drop_bit (lv - l) leaf else 0))"
proof -
  define f where "f = (\<lambda>l. node_index l (if l > 0 then drop_bit (lv - l) leaf else 0))"
  have "path_indices lv leaf = map f [0..<lv + 1]"
    unfolding path_indices_def path_nodes_def f_def by (simp only: map_map o_def fst_conv snd_conv)
  then have "set (path_indices lv leaf) = f ` {l. l \<le> lv}"
    by (simp only: set_map set_upt) (simp add: atLeast0LessThan lessThan_def less_Suc_eq_le)
  then have "i \<in> set (path_indices lv leaf) \<longleftrightarrow> (\<exists>l \<le> lv. i = f l)"
    by blast
  then show ?thesis by (simp only: f_def)
qed

lemma path_indices_less:
  assumes "leaf < 2 ^ lv" "i \<in> set (path_indices lv leaf)"
  shows "i < 2 ^ (lv + 1) - 1"
proof -
  from assms(2) obtain l where l: "l \<le> lv"
    and i: "i = node_index l (if l > 0 then drop_bit (lv - l) leaf else 0)"
    unfolding path_indices_iff by blast
  have "(if l > 0 then drop_bit (lv - l) leaf else 0) < (2::nat) ^ l"
    using drop_bit_leaf_less[OF assms(1) l] by simp
  then show ?thesis unfolding i by (rule node_index_less[OF l])
qed

lemma same_subtree_on_path:
  assumes "same_subtree_at_level lv p x l" "l \<le> lv"
  shows "node_index l (if l > 0 then drop_bit (lv - l) x else 0) \<in> set (path_indices lv p)"
  unfolding path_indices_iff using assms
  by (intro exI[of _ l]) (auto simp: same_subtree_at_level_def split: if_splits)

lemma on_path_level:
  assumes "node_index l idx \<in> set (path_indices lv leaf)" "idx < 2 ^ l" "leaf < 2 ^ lv" "0 < l"
  shows "l \<le> lv \<and> drop_bit (lv - l) leaf = idx"
proof -
  from assms(1) obtain l' where l': "l' \<le> lv"
    and eq: "node_index l idx = node_index l' (if l' > 0 then drop_bit (lv - l') leaf else 0)"
    unfolding path_indices_iff by blast
  have "(if l' > 0 then drop_bit (lv - l') leaf else 0) < (2::nat) ^ l'"
    using drop_bit_leaf_less[OF assms(3) l'] by simp
  from node_index_inj[OF eq assms(2) this] assms(4) l' show ?thesis by auto
qed

lemma fold_dict_set_fresh:
  "distinct (map fst (st @ bk)) \<Longrightarrow>
     fold (\<lambda>blk st. dict_set (fst blk) (snd blk) st) bk st = st @ bk"
proof (induction bk arbitrary: st)
  case Nil
  then show ?case by simp
next
  case (Cons b bk)
  have "fst b \<notin> fst ` set st" using Cons.prems by auto
  then have "dict_set (fst b) (snd b) st = st @ [b]" by (simp add: dict_set_new)
  moreover have "distinct (map fst ((st @ [b]) @ bk))" using Cons.prems by simp
  ultimately show ?case using Cons.IH[of "st @ [b]"] by simp
qed

lemma same_params_refl: "same_params s s"
  by (simp add: same_params_def)

lemma same_params_trans: "same_params s s1 \<Longrightarrow> same_params s1 s2 \<Longrightarrow> same_params s s2"
  by (simp add: same_params_def)

lemma distinct_ids_mset:
  "mset xs = mset ys \<Longrightarrow> distinct (map fst xs) \<Longrightarrow> distinct (map fst ys)"
  by (metis distinct_map mset_eq_imp_distinct_iff mset_map)

lemma read_bucket_mset:
  assumes "i < length (tree s)" "distinct (map fst (all_blocks s))"
  shows "fold (\<lambda>blk st. dict_set (fst blk) (snd blk) st) (tree s ! i) (stash s) = stash s @ tree s ! i"
proof -
  have "mset (concat ((tree s)[i := []])) + mset (tree s ! i) = mset (concat (tree s))"
    using mset_concat_update[OF assms(1), of "[]"] by simp
  then have "mset (all_blocks s) = mset (concat ((tree s)[i := []]) @ stash s @ tree s ! i)"
    by (simp add: all_blocks_def)
  from distinct_ids_mset[OF this assms(2)] have "distinct (map fst (stash s @ tree s ! i))"
    by simp
  then show ?thesis by (rule fold_dict_set_fresh)
qed

lemma read_path_props:
  assumes "\<forall>node \<in> set nodes. node_index (fst node) (snd node) < length (tree s)"
    and "distinct (map fst (all_blocks s))"
  shows "\<exists>s'. read_path nodes s = (Inr (), s') \<and> same_params s s' \<and>
           mset (all_blocks s') = mset (all_blocks s) \<and>
           (\<forall>i < length (tree s). tree s' ! i =
              (if i \<in> (\<lambda>node. node_index (fst node) (snd node)) ` set nodes then [] else tree s ! i)) \<and>
           set (stash s') = set (stash s) \<union>
              (\<Union>node \<in> set nodes. set (tree s ! node_index (fst node) (snd node)))"
  using assms
proof (induction nodes arbitrary: s)
  case Nil
  then show ?case by (simp add: same_params_refl)
next
  case (Cons node nodes)
  define i where "i = node_index (fst node) (snd node)"
  define s1 where "s1 = s\<lparr>stash := stash s @ tree s ! i, tree := (tree s)[i := []]\<rparr>"
  have i: "i < length (tree s)" using Cons.prems(1) by (simp add: i_def)
  have step: "read_path (node # nodes) s = read_path nodes s1"
    using i read_bucket_mset[OF i Cons.prems(2)] by (simp add: i_def[symmetric] s1_def)
  have ms1: "mset (all_blocks s1) = mset (all_blocks s)"
    using mset_concat_update[OF i, of "[]"] by (simp add: all_blocks_def s1_def)
  have d1: "distinct (map fst (all_blocks s1))"
    using distinct_ids_mset[OF ms1[symmetric] Cons.prems(2)] .
  have sp1: "same_params s s1" by (simp add: same_params_def s1_def)
  have n1: "\<forall>node \<in> set nodes. node_index (fst node) (snd node) < length (tree s1)"
    using Cons.prems(1) by (simp add: s1_def)
  from Cons.IH[OF n1 d1] obtain s' where s': "read_path nodes s1 = (Inr (), s')"
    "same_params s1 s'" "mset (all_blocks s') = mset (all_blocks s1)"
    "\<forall>j < length (tree s1). tree s' ! j =
       (if j \<in> (\<lambda>node. node_index (fst node) (snd node)) ` set nodes then [] else tree s1 ! j)"
    "set (stash s') = set (stash s1) \<union>
       (\<Union>node \<in> set nodes. set (tree s1 ! node_index (fst node) (snd node)))"
    by blast
  have t: "\<forall>j < length (tree s). tree s' ! j =
       (if j \<in> (\<lambda>node. node_index (fst node) (snd node)) ` set (node # nodes) then [] else tree s ! j)"
  proof (intro allI impI)
    fix j assume "j < length (tree s)"
    then show "tree s' ! j =
       (if j \<in> (\<lambda>node. node_index (fst node) (snd node)) ` set (node # nodes) then [] else tree s ! j)"
      using s'(4) i by (auto simp: s1_def i_def nth_list_update)
  qed
  have u: "set (stash s') = set (stash s) \<union>
       (\<Union>node \<in> set (node # nodes). set (tree s ! node_index (fst node) (snd node)))"
  proof -
    have a: "set (tree s1 ! j) \<subseteq> set (tree s ! j)" for j
      using i by (cases "j = i") (simp_all add: s1_def)
    have b: "set (tree s ! j) \<subseteq> set (tree s ! i) \<union> set (tree s1 ! j)" for j
      by (cases "j = i") (simp_all add: s1_def)
    have "set (stash s1) = set (stash s) \<union> set (tree s ! i)" by (simp add: s1_def)
    then show ?thesis unfolding s'(5) using a b by (fastforce simp: i_def)
  qed
  show ?case
    using step s'(1) same_params_trans[OF sp1 s'(2)] s'(3) ms1 t u by simp
qed

subsection \<open>The stash scan and the moves of one level\<close>

lemma scan_stash_closed:
  assumes "\<forall>bid \<in> set bids. bid < length (position s)" "length chosen < capacity"
  shows "scan_stash s x l capacity bids chosen =
           Inr (chosen @ take (capacity - length chosen)
                  (filter (\<lambda>bid. same_subtree_at_level (L s) (position s ! bid) x l) bids))"
  using assms
proof (induction bids arbitrary: chosen)
  case Nil
  then show ?case by simp
next
  case (Cons bid bids)
  show ?case
  proof (cases "same_subtree_at_level (L s) (position s ! bid) x l")
    case False
    then show ?thesis using Cons by simp
  next
    case True
    show ?thesis
    proof (cases "Suc (length chosen) = capacity")
      case full: True
      then have "capacity - length chosen = Suc 0" by simp
      then show ?thesis using True full Cons.prems by simp
    next
      case False
      then have lt: "length (chosen @ [bid]) < capacity" using Cons.prems(2) by simp
      have "capacity - length chosen = Suc (capacity - length (chosen @ [bid]))"
        using lt by simp
      then show ?thesis
        using True False Cons.prems(1) Cons.IH[OF _ lt] by simp
    qed
  qed
qed

lemma dict_pop_present:
  assumes "distinct (map fst d)" "k \<in> fst ` set d"
  shows "dict_pop d k = Inr (the (map_of d k), filter (\<lambda>kv. fst kv \<noteq> k) d)"
proof -
  from assms(2) obtain v where "map_of d k = Some v"
    by (metis domD dom_map_of_conv_image_fst)
  then show ?thesis by (simp add: dict_pop_def)
qed

lemma map_of_filter_other:
  "k \<noteq> k' \<Longrightarrow> map_of (filter (\<lambda>kv. fst kv \<noteq> k') d) k = map_of d k"
  by (induction d) auto

lemma move_chosen_closed:
  assumes "distinct (map fst (stash s))" "distinct chosen" "set chosen \<subseteq> fst ` set (stash s)"
    and "i < length (tree s)"
  shows "move_chosen i chosen s =
           (Inr (), s\<lparr>stash := filter (\<lambda>kv. fst kv \<notin> set chosen) (stash s),
                      tree := (tree s)[i := tree s ! i @
                                 map (\<lambda>k. (k, the (map_of (stash s) k))) chosen]\<rparr>)"
  using assms
proof (induction chosen arbitrary: s)
  case Nil
  then show ?case by simp
next
  case (Cons bid bids)
  define v where "v = the (map_of (stash s) bid)"
  define s1 where "s1 = s\<lparr>stash := filter (\<lambda>kv. fst kv \<noteq> bid) (stash s),
                           tree := (tree s)[i := tree s ! i @ [(bid, v)]]\<rparr>"
  have pop: "dict_pop (stash s) bid = Inr (v, filter (\<lambda>kv. fst kv \<noteq> bid) (stash s))"
    unfolding v_def using Cons.prems(1,3) by (intro dict_pop_present) auto
  have step: "move_chosen i (bid # bids) s = move_chosen i bids s1"
    by (simp add: pop s1_def)
  have d1: "distinct (map fst (stash s1))"
    using Cons.prems(1) by (simp add: s1_def distinct_map_filter)
  have c1: "distinct bids" using Cons.prems(2) by simp
  have sub1: "set bids \<subseteq> fst ` set (stash s1)"
  proof
    fix k assume k: "k \<in> set bids"
    then obtain w where "(k, w) \<in> set (stash s)" using Cons.prems(3) by auto
    moreover have "k \<noteq> bid" using k Cons.prems(2) by auto
    ultimately show "k \<in> fst ` set (stash s1)" by (force simp: s1_def)
  qed
  have i1: "i < length (tree s1)" using Cons.prems(4) by (simp add: s1_def)
  have vals: "map (\<lambda>k. (k, the (map_of (stash s1) k))) bids =
              map (\<lambda>k. (k, the (map_of (stash s) k))) bids"
  proof (rule map_cong[OF refl])
    fix k assume "k \<in> set bids"
    then have "k \<noteq> bid" using Cons.prems(2) by auto
    then show "(k, the (map_of (stash s1) k)) = (k, the (map_of (stash s) k))"
      by (simp add: s1_def map_of_filter_other)
  qed
  have flt: "filter (\<lambda>kv. fst kv \<notin> set bids) (stash s1) =
             filter (\<lambda>kv. fst kv \<notin> set (bid # bids)) (stash s)"
    by (auto simp: s1_def intro: filter_cong)
  show ?case
    unfolding step Cons.IH[OF d1 c1 sub1 i1] vals flt
    using Cons.prems(4) by (simp add: s1_def v_def)
qed

lemma moved_mset:
  assumes "distinct (map fst d)" "distinct chosen" "set chosen \<subseteq> fst ` set d"
  shows "mset (filter (\<lambda>kv. fst kv \<notin> set chosen) d) +
         mset (map (\<lambda>k. (k, the (map_of d k))) chosen) = mset d"
proof -
  have dd: "distinct d" using assms(1) by (simp add: distinct_map)
  have "set (map (\<lambda>k. (k, the (map_of d k))) chosen) = set (filter (\<lambda>kv. fst kv \<in> set chosen) d)"
  proof (intro set_eqI iffI)
    fix kv assume "kv \<in> set (map (\<lambda>k. (k, the (map_of d k))) chosen)"
    then obtain k where k: "k \<in> set chosen" "kv = (k, the (map_of d k))" by auto
    then obtain v where "(k, v) \<in> set d" using assms(3) by auto
    then have "map_of d k = Some v" using assms(1) by simp
    then show "kv \<in> set (filter (\<lambda>kv. fst kv \<in> set chosen) d)"
      using k \<open>(k, v) \<in> set d\<close> by simp
  next
    fix kv assume "kv \<in> set (filter (\<lambda>kv. fst kv \<in> set chosen) d)"
    then have kv: "kv \<in> set d" "fst kv \<in> set chosen" by auto
    then have "map_of d (fst kv) = Some (snd kv)" using assms(1) by simp
    then show "kv \<in> set (map (\<lambda>k. (k, the (map_of d k))) chosen)"
      using kv(2) by (auto simp: image_iff intro!: bexI[of _ "fst kv"])
  qed
  moreover have "distinct (map (\<lambda>k. (k, the (map_of d k))) chosen)"
    using assms(2) by (simp add: distinct_map inj_on_def)
  moreover have "distinct (filter (\<lambda>kv. fst kv \<in> set chosen) d)" using dd by simp
  ultimately have "mset (map (\<lambda>k. (k, the (map_of d k))) chosen) =
                   mset (filter (\<lambda>kv. fst kv \<in> set chosen) d)"
    by (simp only: set_eq_iff_mset_eq_distinct)
  then show ?thesis
    using multiset_partition[of "mset d" "\<lambda>kv. fst kv \<notin> set chosen"] by simp
qed

subsection \<open>Eviction keeps the invariant\<close>

lemma conserved_distinct: "conserved s \<Longrightarrow> distinct (map fst (all_blocks s))"
  unfolding conserved_def by (metis distinct_upt mset_eq_imp_distinct_iff)

lemma conserved_ids: "conserved s \<Longrightarrow> fst ` set (all_blocks s) = {0..<N s}"
  unfolding conserved_def by (metis mset_eq_setD set_map set_upt)

lemma conserved_mset:
  "mset (all_blocks s') = mset (all_blocks s) \<Longrightarrow> N s' = N s \<Longrightarrow> conserved s \<Longrightarrow> conserved s'"
  unfolding conserved_def by (metis mset_map)

lemma stash_keys_distinct: "conserved s \<Longrightarrow> distinct (map fst (stash s))"
  using conserved_distinct[of s] by (simp add: all_blocks_def)

lemma stash_keys_less: "conserved s \<Longrightarrow> kv \<in> set (stash s) \<Longrightarrow> fst kv < N s"
  using conserved_ids[of s] by (force simp: all_blocks_def)

lemma path_index_in_tree:
  assumes "shape_ok s" "x < 2 ^ L s" "l \<le> L s"
  shows "node_index l (if l > 0 then drop_bit (L s - l) x else 0) < length (tree s)"
proof -
  have "(if l > 0 then drop_bit (L s - l) x else 0) < (2::nat) ^ l"
    using drop_bit_leaf_less[OF assms(2,3)] by simp
  from node_index_less[OF assms(3) this] show ?thesis
    using assms(1) by (simp add: shape_ok_def)
qed

lemma evict_level:
  assumes inv: "engine_inv s" and l: "l \<le> L s" and x: "x < 2 ^ L s"
    and i: "i = node_index l (if l > 0 then drop_bit (L s - l) x else 0)"
    and room: "length (tree s ! i) < Z s"
  shows "\<exists>chosen s'.
           scan_stash s x l (Z s - length (tree s ! i)) (map fst (stash s)) [] = Inr chosen \<and>
           move_chosen i chosen s = (Inr (), s') \<and> engine_inv s' \<and> same_params s s' \<and>
           mset (all_blocks s') = mset (all_blocks s) \<and>
           (\<forall>j. j \<noteq> i \<longrightarrow> tree s' ! j = tree s ! j)"
proof -
  define P where "P = (\<lambda>bid. same_subtree_at_level (L s) (position s ! bid) x l)"
  define chosen where "chosen = take (Z s - length (tree s ! i)) (filter P (map fst (stash s)))"
  define moved where "moved = map (\<lambda>k. (k, the (map_of (stash s) k))) chosen"
  define s' where "s' = s\<lparr>stash := filter (\<lambda>kv. fst kv \<notin> set chosen) (stash s),
                           tree := (tree s)[i := tree s ! i @ moved]\<rparr>"
  from inv have sh: "shape_ok s" and co: "conserved s" and ca: "capacity_ok s" and su: "subtree_ok s"
    by (simp_all add: engine_inv_def)
  have il: "i < length (tree s)" unfolding i by (rule path_index_in_tree[OF sh x l])
  have keys: "\<forall>bid \<in> set (map fst (stash s)). bid < length (position s)"
    using stash_keys_less[OF co] sh by (auto simp: shape_ok_def)
  have scan: "scan_stash s x l (Z s - length (tree s ! i)) (map fst (stash s)) [] = Inr chosen"
    using scan_stash_closed[OF keys, of "[]" "Z s - length (tree s ! i)" x l] room
    by (simp add: chosen_def P_def)
  have dk: "distinct (map fst (stash s))" by (rule stash_keys_distinct[OF co])
  have dc: "distinct chosen" unfolding chosen_def using dk by (intro distinct_take distinct_filter)
  have sc: "set chosen \<subseteq> fst ` set (stash s)"
    unfolding chosen_def using set_take_subset[of _ "filter P (map fst (stash s))"] by auto
  have pc: "\<forall>bid \<in> set chosen. P bid"
    unfolding chosen_def using set_take_subset[of _ "filter P (map fst (stash s))"] by auto
  have lc: "length chosen \<le> Z s - length (tree s ! i)" by (simp add: chosen_def)
  have mv: "move_chosen i chosen s = (Inr (), s')"
    unfolding s'_def moved_def by (rule move_chosen_closed[OF dk dc sc il])
  have sp: "same_params s s'" by (simp add: same_params_def s'_def)
  have ms: "mset (all_blocks s') = mset (all_blocks s)"
  proof -
    have "mset (concat ((tree s)[i := tree s ! i @ moved])) + mset (tree s ! i) =
          mset (concat (tree s)) + (mset (tree s ! i) + mset moved)"
      using mset_concat_update[OF il, of "tree s ! i @ moved"] by simp
    then have "mset (concat ((tree s)[i := tree s ! i @ moved])) = mset (concat (tree s)) + mset moved"
      by simp
    moreover have "mset (filter (\<lambda>kv. fst kv \<notin> set chosen) (stash s)) + mset moved = mset (stash s)"
      unfolding moved_def by (rule moved_mset[OF dk dc sc])
    ultimately show ?thesis by (simp add: all_blocks_def s'_def) (metis add.assoc add.commute)
  qed
  have oth: "\<forall>j. j \<noteq> i \<longrightarrow> tree s' ! j = tree s ! j" by (simp add: s'_def)
  have sh': "shape_ok s'" using sh by (simp add: shape_ok_def s'_def)
  have co': "conserved s'" using conserved_mset[OF ms _ co] by (simp add: s'_def)
  have ca': "capacity_ok s'"
    unfolding capacity_ok_def
  proof
    fix b assume "b \<in> set (tree s')"
    then have "b = tree s ! i @ moved \<or> b \<in> set (tree s)"
      using set_update_subset_insert[of "tree s" i "tree s ! i @ moved"] by (auto simp: s'_def)
    then show "length b \<le> Z s'"
    proof
      assume "b = tree s ! i @ moved"
      then show ?thesis using lc room by (simp add: moved_def s'_def)
    next
      assume "b \<in> set (tree s)"
      then show ?thesis using ca by (simp add: capacity_ok_def s'_def)
    qed
  qed
  have su': "subtree_ok s'"
    unfolding subtree_ok_def
  proof (intro allI impI ballI)
    fix j blk assume j: "j < length (tree s')" and blk: "blk \<in> set (tree s' ! j)"
    have jl: "j < length (tree s)" using j by (simp add: s'_def)
    show "j \<in> set (path_indices (L s') (position s' ! fst blk))"
    proof (cases "j = i \<and> blk \<in> set moved")
      case True
      then have "P (fst blk)" using pc by (auto simp: moved_def)
      then show ?thesis
        using same_subtree_on_path[of "L s" "position s ! fst blk" x l] l True
        by (simp add: P_def i s'_def)
    next
      case False
      then have "blk \<in> set (tree s ! j)" using blk il by (cases "j = i") (auto simp: s'_def)
      then show ?thesis using su jl by (simp add: subtree_ok_def s'_def)
    qed
  qed
  show ?thesis using scan mv sp ms oth sh' co' ca' su' by (auto simp: engine_inv_def)
qed

lemma evict_props:
  assumes "engine_inv s" "x < 2 ^ L s" "\<forall>l \<in> set ls. l \<le> L s"
  shows "\<exists>s'. evict x ls s = (Inr (), s') \<and> engine_inv s' \<and> same_params s s' \<and>
           mset (all_blocks s') = mset (all_blocks s) \<and>
           (\<forall>j. j \<notin> set (path_indices (L s) x) \<longrightarrow> tree s' ! j = tree s ! j)"
  using assms
proof (induction ls arbitrary: s)
  case Nil
  then show ?case by (simp add: same_params_refl)
next
  case (Cons l ls)
  define i where "i = node_index l (if l > 0 then drop_bit (L s - l) x else 0)"
  have l: "l \<le> L s" using Cons.prems(3) by simp
  have sh: "shape_ok s" using Cons.prems(1) by (simp add: engine_inv_def)
  have il: "i < length (tree s)" unfolding i_def by (rule path_index_in_tree[OF sh Cons.prems(2) l])
  have ip: "i \<in> set (path_indices (L s) x)" unfolding path_indices_iff i_def using l by blast
  show ?case
  proof (cases "Z s \<le> length (tree s ! i)")
    case True
    then have step: "evict x (l # ls) s = evict x ls s"
      using il by (simp add: i_def[symmetric] Let_def)
    from Cons.IH[OF Cons.prems(1,2)] Cons.prems(3) show ?thesis unfolding step by simp
  next
    case False
    then have room: "length (tree s ! i) < Z s" by simp
    from evict_level[OF Cons.prems(1) l Cons.prems(2) i_def room] obtain chosen s1 where
      s1: "scan_stash s x l (Z s - length (tree s ! i)) (map fst (stash s)) [] = Inr chosen"
        "move_chosen i chosen s = (Inr (), s1)" "engine_inv s1" "same_params s s1"
        "mset (all_blocks s1) = mset (all_blocks s)" "\<forall>j. j \<noteq> i \<longrightarrow> tree s1 ! j = tree s ! j"
      by blast
    have step: "evict x (l # ls) s = evict x ls s1"
      using il False s1(1,2) by (simp add: i_def[symmetric] Let_def)
    have L1: "L s1 = L s" using s1(4) by (simp add: same_params_def)
    from Cons.IH[OF s1(3)] Cons.prems(2,3) L1 obtain s' where
      s': "evict x ls s1 = (Inr (), s')" "engine_inv s'" "same_params s1 s'"
        "mset (all_blocks s') = mset (all_blocks s1)"
        "\<forall>j. j \<notin> set (path_indices (L s) x) \<longrightarrow> tree s' ! j = tree s1 ! j"
      by auto
    have "\<forall>j. j \<notin> set (path_indices (L s) x) \<longrightarrow> tree s' ! j = tree s ! j"
      using s'(5) s1(6) ip by auto
    then show ?thesis
      unfolding step using s'(1,2,4) s1(5) same_params_trans[OF s1(4) s'(3)] by simp
  qed
qed

subsection \<open>The read phase of an access\<close>

lemma path_nodes_indices:
  "(\<lambda>node. node_index (fst node) (snd node)) ` set (path_nodes lv x) = set (path_indices lv x)"
  by (simp add: path_indices_def)

lemma in_concat_nth: "p \<in> set (concat xs) \<longleftrightarrow> (\<exists>j < length xs. p \<in> set (xs ! j))"
proof
  assume "p \<in> set (concat xs)"
  then obtain ys where "ys \<in> set xs" "p \<in> set ys" by auto
  then show "\<exists>j < length xs. p \<in> set (xs ! j)" by (metis in_set_conv_nth)
next
  assume "\<exists>j < length xs. p \<in> set (xs ! j)"
  then show "p \<in> set (concat xs)" using nth_mem by auto
qed

lemma read_phase:
  assumes ok: "rng_ok R" and inv: "engine_inv s" and b: "b < N s"
  shows "\<exists>g' s1 s2.
           resample R b (g, s) = (g', s1) \<and>
           s1 = s\<lparr>position := (position s)[b := fst (randrange R (leaf_space s) g)]\<rparr> \<and>
           g' = snd (randrange R (leaf_space s) g) \<and>
           read_path (path_nodes (L s1) (position s ! b)) s1 = (Inr (), s2) \<and>
           engine_inv s2 \<and> same_params s1 s2 \<and>
           mset (all_blocks s2) = mset (all_blocks s) \<and>
           (\<forall>i \<in> set (path_indices (L s) (position s ! b)). tree s2 ! i = []) \<and>
           (\<forall>j < length (tree s). j \<notin> set (path_indices (L s) (position s ! b)) \<longrightarrow>
              tree s2 ! j = tree s ! j) \<and>
           (\<forall>i \<in> set (path_indices (L s) (position s ! b)). set (tree s ! i) \<subseteq> set (stash s2)) \<and>
           set (stash s) \<subseteq> set (stash s2) \<and>
           b \<in> fst ` set (stash s2)"
proof -
  define x where "x = position s ! b"
  define r where "r = fst (randrange R (leaf_space s) g)"
  define s1 where "s1 = s\<lparr>position := (position s)[b := r]\<rparr>"
  from inv have sh: "shape_ok s" and co: "conserved s" and ca: "capacity_ok s" and su: "subtree_ok s"
    by (simp_all add: engine_inv_def)
  have bl: "b < length (position s)" using b sh by (simp add: shape_ok_def)
  have x: "x < 2 ^ L s" using sh bl by (simp add: shape_ok_def x_def)
  have r: "r < 2 ^ L s" using ok sh by (simp add: rng_ok_def shape_ok_def r_def)
  have res: "resample R b (g, s) = (snd (randrange R (leaf_space s) g), s1)"
    by (simp add: resample_def s1_def r_def split: prod.splits)
  have ab1: "all_blocks s1 = all_blocks s" by (simp add: all_blocks_def s1_def)
  have d1: "distinct (map fst (all_blocks s1))" unfolding ab1 by (rule conserved_distinct[OF co])
  have pl: "\<forall>i \<in> set (path_indices (L s) x). i < length (tree s)"
    using path_indices_less[OF x] sh by (simp add: shape_ok_def)
  have n1: "\<forall>node \<in> set (path_nodes (L s1) x). node_index (fst node) (snd node) < length (tree s1)"
    using pl by (simp add: s1_def path_indices_def)
  from read_path_props[OF n1 d1] obtain s2 where
    s2: "read_path (path_nodes (L s1) x) s1 = (Inr (), s2)" "same_params s1 s2"
      "mset (all_blocks s2) = mset (all_blocks s1)"
      "\<forall>i < length (tree s1). tree s2 ! i =
         (if i \<in> (\<lambda>node. node_index (fst node) (snd node)) ` set (path_nodes (L s1) x)
          then [] else tree s1 ! i)"
      "set (stash s2) = set (stash s1) \<union>
         (\<Union>node \<in> set (path_nodes (L s1) x). set (tree s1 ! node_index (fst node) (snd node)))"
    by blast
  have L1: "L s1 = L s" and t1: "tree s1 = tree s" and st1: "stash s1 = stash s"
    by (simp_all add: s1_def)
  have t2: "\<forall>i < length (tree s). tree s2 ! i = (if i \<in> set (path_indices (L s) x) then [] else tree s ! i)"
    using s2(4) unfolding path_nodes_indices L1 t1 .
  have st2: "set (stash s2) = set (stash s) \<union> (\<Union>i \<in> set (path_indices (L s) x). set (tree s ! i))"
    unfolding s2(5) L1 t1 st1 path_indices_def by simp
  have len2: "length (tree s2) = length (tree s)" using s2(2) by (simp add: same_params_def s1_def)
  have pos2: "position s2 = (position s)[b := r]" using s2(2) by (simp add: same_params_def s1_def)
  have ms: "mset (all_blocks s2) = mset (all_blocks s)" using s2(3) ab1 by simp
  have emp: "\<forall>i \<in> set (path_indices (L s) x). tree s2 ! i = []" using t2 pl by simp
  have keep: "\<forall>j < length (tree s). j \<notin> set (path_indices (L s) x) \<longrightarrow> tree s2 ! j = tree s ! j"
    using t2 by simp
  have notb: "fst blk \<noteq> b \<and> j \<notin> set (path_indices (L s) x) \<and> blk \<in> set (tree s ! j)"
    if "j < length (tree s)" "blk \<in> set (tree s2 ! j)" for j blk
  proof -
    have np: "j \<notin> set (path_indices (L s) x)" using that t2 by (auto split: if_splits)
    then have m: "blk \<in> set (tree s ! j)" using that t2 by simp
    then have "j \<in> set (path_indices (L s) (position s ! fst blk))"
      using su that(1) by (simp add: subtree_ok_def)
    then have "fst blk \<noteq> b" using np by (auto simp: x_def)
    then show ?thesis using np m by simp
  qed
  have sh2: "shape_ok s2"
  proof -
    have "\<forall>p \<in> set ((position s)[b := r]). p < 2 ^ L s"
      using sh r set_update_subset_insert[of "position s" b r] by (auto simp: shape_ok_def)
    then show ?thesis using sh s2(2) by (simp add: shape_ok_def same_params_def s1_def)
  qed
  have co2: "conserved s2" using conserved_mset[OF ms _ co] s2(2) by (simp add: same_params_def s1_def)
  have ca2: "capacity_ok s2"
    unfolding capacity_ok_def
  proof
    fix bk assume "bk \<in> set (tree s2)"
    then obtain j where j: "j < length (tree s)" "bk = tree s2 ! j"
      using len2 by (auto simp: in_set_conv_nth)
    then have "bk = [] \<or> bk \<in> set (tree s)" using t2 by (auto split: if_splits)
    moreover have "Z s2 = Z s" using s2(2) by (simp add: same_params_def s1_def)
    ultimately show "length bk \<le> Z s2" using ca by (auto simp: capacity_ok_def)
  qed
  have su2: "subtree_ok s2"
    unfolding subtree_ok_def
  proof (intro allI impI ballI)
    fix j blk assume j: "j < length (tree s2)" and blk: "blk \<in> set (tree s2 ! j)"
    from notb[of j blk] j blk len2
    have nb: "fst blk \<noteq> b" and m: "blk \<in> set (tree s ! j)" by simp_all
    have "j \<in> set (path_indices (L s) (position s ! fst blk))"
      using su j len2 m by (simp add: subtree_ok_def)
    moreover have "L s2 = L s" using s2(2) by (simp add: same_params_def s1_def)
    ultimately show "j \<in> set (path_indices (L s2) (position s2 ! fst blk))"
      using nb by (simp add: pos2)
  qed
  have bin: "b \<in> fst ` set (stash s2)"
  proof -
    have "b \<in> fst ` set (all_blocks s)" using conserved_ids[OF co] b by simp
    moreover have "set (all_blocks s2) = set (all_blocks s)" using ms by (rule mset_eq_setD)
    ultimately obtain d where d: "(b, d) \<in> set (all_blocks s2)" by force
    have "(b, d) \<notin> set (concat (tree s2))"
      unfolding in_concat_nth using notb[of _ "(b, d)"] len2 by auto
    then show ?thesis using d by (force simp: all_blocks_def)
  qed
  show ?thesis
    using res s2(1,2) sh2 co2 ca2 su2 ms emp keep st2 bin
    unfolding engine_inv_def x_def[symmetric]
    by (auto simp: s1_def r_def)
qed

subsection \<open>One access\<close>

lemma distinct_ids_map_of:
  "distinct (map fst xs) \<Longrightarrow> (k, v) \<in> set xs \<Longrightarrow> map_of xs k = Some v"
  by simp

lemma set_mset_remove_distinct:
  "distinct xs \<Longrightarrow> set_mset (mset xs - {#x#}) = set xs - {x}"
  by (metis mset_remove1 set_mset_mset set_remove1_eq)

lemma access_spec:
  assumes ok: "rng_ok R" and inv: "engine_inv s" and a: "0 \<le> a" "a < int (N s)"
    and op: "op = ''read'' \<or> op = ''write''"
  shows "\<exists>old s'.
           access R op a new_data (g, s) = (Inr old, snd (randrange R (leaf_space s) g), s') \<and>
           engine_inv s' \<and> N s' = N s \<and> Z s' = Z s \<and> L s' = L s \<and>
           length (tree s') = length (tree s) \<and>
           position s' = (position s)[nat a := fst (randrange R (leaf_space s) g)] \<and>
           (nat a, old) \<in> set (all_blocks s) \<and>
           set (all_blocks s') =
             (if op = ''write'' then insert (nat a, new_data) (set (all_blocks s) - {(nat a, old)})
              else set (all_blocks s)) \<and>
           (\<forall>j < length (tree s). j \<notin> set (path_indices (L s) (position s ! nat a)) \<longrightarrow>
              tree s' ! j = tree s ! j)"
proof -
  define b where "b = nat a"
  define x where "x = position s ! b"
  have b: "b < N s" using a by (simp add: b_def)
  from inv have sh: "shape_ok s" and co: "conserved s" by (simp_all add: engine_inv_def)
  have bl: "b < length (position s)" using b sh by (simp add: shape_ok_def)
  have x: "x < 2 ^ L s" using sh bl by (simp add: shape_ok_def x_def)
  from read_phase[OF ok inv b, of g] obtain g' s1 s2 where
    rp: "resample R b (g, s) = (g', s1)"
      "s1 = s\<lparr>position := (position s)[b := fst (randrange R (leaf_space s) g)]\<rparr>"
      "g' = snd (randrange R (leaf_space s) g)"
      "read_path (path_nodes (L s1) x) s1 = (Inr (), s2)"
      "engine_inv s2" "same_params s1 s2" "mset (all_blocks s2) = mset (all_blocks s)"
      "\<forall>j < length (tree s). j \<notin> set (path_indices (L s) x) \<longrightarrow> tree s2 ! j = tree s ! j"
      "b \<in> fst ` set (stash s2)"
    unfolding x_def by blast
  from rp(5) have sh2: "shape_ok s2" and co2: "conserved s2" and ca2: "capacity_ok s2"
    and su2: "subtree_ok s2" by (simp_all add: engine_inv_def)
  have par2: "N s2 = N s" "Z s2 = Z s" "L s2 = L s" "length (tree s2) = length (tree s)"
    "position s2 = (position s)[b := fst (randrange R (leaf_space s) g)]"
    using rp(6) by (simp_all add: same_params_def rp(2))
  from rp(9) obtain old where old: "(b, old) \<in> set (stash s2)" by force
  have dk2: "distinct (map fst (stash s2))" by (rule stash_keys_distinct[OF co2])
  have get: "dict_get (stash s2) b (PyInt a) = old"
    using distinct_ids_map_of[OF dk2 old] by (simp add: dict_get_def)
  have seteq2: "set (all_blocks s2) = set (all_blocks s)" using rp(7) by (rule mset_eq_setD)
  have oldin: "(b, old) \<in> set (all_blocks s)" using old seteq2 by (auto simp: all_blocks_def)
  define s3 where "s3 = (if op = ''write'' then s2\<lparr>stash := dict_set b new_data (stash s2)\<rparr> else s2)"
  have keys3: "map fst (stash s3) = map fst (stash s2)"
    using rp(9) by (simp add: s3_def dict_set_keys)
  have t3: "tree s3 = tree s2" and par3: "same_params s2 s3"
    by (simp_all add: s3_def same_params_def)
  have inv3: "engine_inv s3"
  proof -
    have "map fst (all_blocks s3) = map fst (all_blocks s2)"
      using keys3 t3 by (simp add: all_blocks_def)
    then have "conserved s3" using co2 par3 by (simp add: conserved_def same_params_def)
    moreover have "shape_ok s3" using sh2 par3 by (simp add: shape_ok_def same_params_def)
    moreover have "capacity_ok s3" using ca2 par3 t3 by (simp add: capacity_ok_def same_params_def)
    moreover have "subtree_ok s3" using su2 par3 t3 by (simp add: subtree_ok_def same_params_def)
    ultimately show ?thesis by (simp add: engine_inv_def)
  qed
  have set3: "set (all_blocks s3) =
      (if op = ''write'' then insert (b, new_data) (set (all_blocks s) - {(b, old)})
       else set (all_blocks s))"
  proof (cases "op = ''write''")
    case False
    then show ?thesis using seteq2 by (simp add: s3_def)
  next
    case True
    have d2: "distinct (all_blocks s2)"
      using conserved_distinct[OF co2] by (simp add: distinct_map)
    have "mset (stash s3) = add_mset (b, new_data) (mset (stash s2) - {#(b, old)#})"
      using True dict_set_old[OF dk2 old] by (simp add: s3_def)
    then have "mset (all_blocks s3) = add_mset (b, new_data) (mset (all_blocks s2) - {#(b, old)#})"
      using old t3 by (simp add: all_blocks_def)
    then have "set_mset (mset (all_blocks s3)) =
        insert (b, new_data) (set_mset (mset (all_blocks s2) - {#(b, old)#}))"
      by simp
    then show ?thesis
      unfolding set_mset_remove_distinct[OF d2] using True seteq2 by simp
  qed
  have L3: "L s3 = L s" using par3 par2 by (simp add: same_params_def)
  have lv: "\<forall>l \<in> set (rev [0..<L s3 + 1]). l \<le> L s3" by auto
  have x3: "x < 2 ^ L s3" using x L3 by simp
  from evict_props[OF inv3 x3 lv] obtain s4 where
    s4: "evict x (rev [0..<L s3 + 1]) s3 = (Inr (), s4)" "engine_inv s4" "same_params s3 s4"
      "mset (all_blocks s4) = mset (all_blocks s3)"
      "\<forall>j. j \<notin> set (path_indices (L s3) x) \<longrightarrow> tree s4 ! j = tree s3 ! j"
    by blast
  have run: "access R op a new_data (g, s) = (Inr old, g', s4)"
  proof -
    have r1: "resample R (nat a) (g, s) = (g', s1)" using rp(1) by (simp only: b_def)
    have r2: "read_path (path_nodes (L s1) (position s ! nat a)) s1 = (Inr (), s2)"
      using rp(4) by (simp only: x_def b_def)
    have r3: "dict_get (stash s2) (nat a) (PyInt a) = old" using get by (simp only: b_def)
    have r4: "(if op = ''write'' then s2\<lparr>stash := dict_set (nat a) new_data (stash s2)\<rparr> else s2) = s3"
      by (simp only: s3_def b_def)
    have r5: "evict (position s ! nat a) (rev [0..<L s3 + 1]) s3 = (Inr (), s4)"
      using s4(1) by (simp only: x_def b_def)
    have r6: "nat a < length (position s)" using bl by (simp only: b_def)
    show ?thesis
      unfolding access_def
      by (simp only: Let_def prod.case sum.case a op r1 r2 r3 r4 r5 r6 simp_thms if_True if_False)
  qed
  have par4: "N s4 = N s" "Z s4 = Z s" "L s4 = L s" "length (tree s4) = length (tree s)"
    "position s4 = (position s)[b := fst (randrange R (leaf_space s) g)]"
    using s4(3) par3 par2 by (simp_all add: same_params_def)
  have set4: "set (all_blocks s4) = set (all_blocks s3)" using s4(4) by (rule mset_eq_setD)
  have keep: "\<forall>j < length (tree s). j \<notin> set (path_indices (L s) x) \<longrightarrow> tree s4 ! j = tree s ! j"
    using s4(5) rp(8) t3 L3 by simp
  show ?thesis
    using run s4(2) par4 oldin set3 set4 keep
    unfolding rp(3) b_def[symmetric] x_def[symmetric] by simp
qed

subsection \<open>Construction\<close>

lemma try_place_props:
  assumes "shape_ok s" "leaf < 2 ^ L s" "\<forall>l \<in> set ls. l \<le> L s"
  shows "\<exists>placed s'. try_place a leaf ls s = (Inr placed, s') \<and>
           (if placed
            then \<exists>i \<in> set (path_indices (L s) leaf). i < length (tree s) \<and>
                   length (tree s ! i) < Z s \<and>
                   s' = s\<lparr>tree := (tree s)[i := tree s ! i @ [(a, PyInt (int a))]]\<rparr>
            else s' = s)"
  using assms(3)
proof (induction ls)
  case Nil
  show ?case by (intro exI[of _ False] exI[of _ s]) simp
next
  case (Cons l ls)
  define i where "i = node_index l (if l > 0 then drop_bit (L s - l) leaf else 0)"
  have l: "l \<le> L s" using Cons.prems by simp
  have il: "i < length (tree s)" unfolding i_def by (rule path_index_in_tree[OF assms(1,2) l])
  have ip: "i \<in> set (path_indices (L s) leaf)" unfolding path_indices_iff i_def using l by blast
  show ?case
  proof (cases "length (tree s ! i) < Z s")
    case True
    then have "try_place a leaf (l # ls) s =
        (Inr True, s\<lparr>tree := (tree s)[i := tree s ! i @ [(a, PyInt (int a))]]\<rparr>)"
      using il by (simp add: i_def[symmetric] Let_def)
    then show ?thesis using True il ip by auto
  next
    case False
    then have "try_place a leaf (l # ls) s = try_place a leaf ls s"
      using il by (simp add: i_def[symmetric] Let_def)
    then show ?thesis using Cons by simp
  qed
qed

lemma place_one:
  assumes sh: "shape_ok s" and ca: "capacity_ok s" and su: "subtree_ok s"
    and a: "a < N s" and fresh: "a \<notin> fst ` set (all_blocks s)"
  shows "\<exists>placed s1 s'. try_place a (position s ! a) (rev [0..<L s + 1]) s = (Inr placed, s1) \<and>
           s' = (if \<not> placed then s1\<lparr>stash := dict_set a (PyInt (int a)) (stash s1)\<rparr> else s1) \<and>
           shape_ok s' \<and> capacity_ok s' \<and> subtree_ok s' \<and>
           mset (map fst (all_blocks s')) = add_mset a (mset (map fst (all_blocks s))) \<and>
           N s' = N s \<and> Z s' = Z s \<and> L s' = L s \<and> position s' = position s"
proof -
  define leaf where "leaf = position s ! a"
  have leaf: "leaf < 2 ^ L s" using sh a by (simp add: shape_ok_def leaf_def)
  have lv: "\<forall>l \<in> set (rev [0..<L s + 1]). l \<le> L s" by auto
  from try_place_props[OF sh leaf lv, of a] obtain placed s1 where
    tp: "try_place a leaf (rev [0..<L s + 1]) s = (Inr placed, s1)"
      "if placed
       then \<exists>i \<in> set (path_indices (L s) leaf). i < length (tree s) \<and>
              length (tree s ! i) < Z s \<and>
              s1 = s\<lparr>tree := (tree s)[i := tree s ! i @ [(a, PyInt (int a))]]\<rparr>
       else s1 = s"
    by blast
  define s' where "s' = (if \<not> placed then s1\<lparr>stash := dict_set a (PyInt (int a)) (stash s1)\<rparr> else s1)"
  have "shape_ok s' \<and> capacity_ok s' \<and> subtree_ok s' \<and>
        mset (map fst (all_blocks s')) = add_mset a (mset (map fst (all_blocks s))) \<and>
        N s' = N s \<and> Z s' = Z s \<and> L s' = L s \<and> position s' = position s"
  proof (cases placed)
    case False
    then have s1: "s1 = s" using tp(2) by simp
    have "a \<notin> fst ` set (stash s)" using fresh by (auto simp: all_blocks_def)
    then have s'eq: "s' = s\<lparr>stash := stash s @ [(a, PyInt (int a))]\<rparr>"
      using False by (simp add: s'_def s1 dict_set_new)
    show ?thesis
      using sh ca su unfolding s'eq
      by (simp add: shape_ok_def capacity_ok_def subtree_ok_def all_blocks_def)
  next
    case True
    then obtain i where i: "i \<in> set (path_indices (L s) leaf)" "i < length (tree s)"
      "length (tree s ! i) < Z s"
      "s1 = s\<lparr>tree := (tree s)[i := tree s ! i @ [(a, PyInt (int a))]]\<rparr>"
      using tp(2) by auto
    have s'eq: "s' = s\<lparr>tree := (tree s)[i := tree s ! i @ [(a, PyInt (int a))]]\<rparr>"
      using True i(4) by (simp add: s'_def)
    have ca': "capacity_ok s'"
      unfolding capacity_ok_def
    proof
      fix b assume "b \<in> set (tree s')"
      then have "b = tree s ! i @ [(a, PyInt (int a))] \<or> b \<in> set (tree s)"
        using set_update_subset_insert[of "tree s" i] by (auto simp: s'eq)
      then show "length b \<le> Z s'" using i(3) ca by (auto simp: capacity_ok_def s'eq)
    qed
    have su': "subtree_ok s'"
      unfolding subtree_ok_def
    proof (intro allI impI ballI)
      fix j blk assume j: "j < length (tree s')" and blk: "blk \<in> set (tree s' ! j)"
      have jl: "j < length (tree s)" using j by (simp add: s'eq)
      show "j \<in> set (path_indices (L s') (position s' ! fst blk))"
      proof (cases "j = i \<and> blk = (a, PyInt (int a))")
        case True
        then show ?thesis using i(1) by (simp add: s'eq leaf_def)
      next
        case False
        then have "blk \<in> set (tree s ! j)" using blk i(2) by (cases "j = i") (auto simp: s'eq)
        then show ?thesis using su jl by (simp add: subtree_ok_def s'eq)
      qed
    qed
    have "mset (concat ((tree s)[i := tree s ! i @ [(a, PyInt (int a))]])) + mset (tree s ! i) =
          mset (concat (tree s)) + mset (tree s ! i @ [(a, PyInt (int a))])"
      by (rule mset_concat_update[OF i(2)])
    then have "mset (concat ((tree s)[i := tree s ! i @ [(a, PyInt (int a))]])) =
          add_mset (a, PyInt (int a)) (mset (concat (tree s)))"
      by simp
    then have "mset (all_blocks s') = add_mset (a, PyInt (int a)) (mset (all_blocks s))"
      by (simp add: all_blocks_def s'eq)
    then have "mset (map fst (all_blocks s')) = add_mset a (mset (map fst (all_blocks s)))"
      by (metis fst_conv image_mset_add_mset mset_map)
    then show ?thesis using sh ca' su' by (simp add: shape_ok_def s'eq)
  qed
  then show ?thesis using tp(1) unfolding leaf_def s'_def by blast
qed

lemma place_blocks_props:
  assumes "shape_ok s" "capacity_ok s" "subtree_ok s" "\<forall>a \<in> set as. a < N s"
    and "distinct as" "set as \<inter> fst ` set (all_blocks s) = {}"
  shows "\<exists>s'. place_blocks as s = (Inr (), s') \<and> shape_ok s' \<and> capacity_ok s' \<and> subtree_ok s' \<and>
           mset (map fst (all_blocks s')) = mset as + mset (map fst (all_blocks s)) \<and>
           N s' = N s \<and> Z s' = Z s \<and> L s' = L s"
  using assms
proof (induction as arbitrary: s)
  case Nil
  then show ?case by simp
next
  case (Cons a as)
  have a: "a < N s" and fresh: "a \<notin> fst ` set (all_blocks s)" using Cons.prems(4,6) by auto
  from place_one[OF Cons.prems(1,2,3) a fresh] obtain placed s1 s2 where
    p: "try_place a (position s ! a) (rev [0..<L s + 1]) s = (Inr placed, s1)"
      "s2 = (if \<not> placed then s1\<lparr>stash := dict_set a (PyInt (int a)) (stash s1)\<rparr> else s1)"
      "shape_ok s2" "capacity_ok s2" "subtree_ok s2"
      "mset (map fst (all_blocks s2)) = add_mset a (mset (map fst (all_blocks s)))"
      "N s2 = N s" "Z s2 = Z s" "L s2 = L s"
    by blast
  have al: "a < length (position s)" using a Cons.prems(1) by (simp add: shape_ok_def)
  have step: "place_blocks (a # as) s = place_blocks as s2"
    using al by (simp only: place_blocks.simps p(1) p(2) prod.case sum.case simp_thms if_False)
  have "set (map fst (all_blocks s2)) = insert a (set (map fst (all_blocks s)))"
    using p(6) by (metis mset_eq_setD set_mset_add_mset_insert set_mset_mset)
  then have disj: "set as \<inter> fst ` set (all_blocks s2) = {}"
    using Cons.prems(5,6) by auto
  have "\<forall>a \<in> set as. a < N s2" "distinct as" using Cons.prems(4,5) p(7) by simp_all
  from Cons.IH[OF p(3,4,5) this disj] obtain s' where
    "place_blocks as s2 = (Inr (), s')" "shape_ok s'" "capacity_ok s'" "subtree_ok s'"
    "mset (map fst (all_blocks s')) = mset as + mset (map fst (all_blocks s2))"
    "N s' = N s2" "Z s' = Z s2" "L s' = L s2"
    by blast
  then show ?case unfolding step using p(6,7,8,9) by simp
qed

lemma draw_positions_props:
  assumes "rng_ok R" "0 < m"
  shows "length (fst (draw_positions R m k g)) = k \<and>
         (\<forall>p \<in> set (fst (draw_positions R m k g)). p < m)"
proof (induction k arbitrary: g)
  case 0
  then show ?case by simp
next
  case (Suc k)
  have "fst (randrange R m g) < m" using assms by (simp add: rng_ok_def)
  then show ?case using Suc[of "snd (randrange R m g)"] by (simp add: case_prod_unfold)
qed

lemma PathORAM_invalid:
  "\<not> (0 < n \<and> 0 < z \<and> 1 \<le> lv \<and> n \<le> 2 ^ nat lv) \<Longrightarrow>
     PathORAM R n z lv seed g = (Inl AssertionError, g)"
  by (auto simp: PathORAM_def push_bit_eq_mult)

lemma PathORAM_valid:
  assumes ok: "rng_ok R" and v: "0 < n" "0 < z" "1 \<le> lv" "n \<le> 2 ^ nat lv"
  shows "\<exists>s g'. PathORAM R n z lv seed g = (Inr s, g') \<and> engine_inv s \<and>
           N s = nat n \<and> Z s = nat z \<and> L s = nat lv"
proof -
  define g1 where "g1 = (case seed of Some sd \<Rightarrow> seed_rng R sd | None \<Rightarrow> g)"
  define pos where "pos = fst (draw_positions R (2 ^ nat lv) (nat n) g1)"
  define g2 where "g2 = snd (draw_positions R (2 ^ nat lv) (nat n) g1)"
  define s0 where "s0 = \<lparr>N = nat n, Z = nat z, L = nat lv, num_nodes = 2 ^ (nat lv + 1) - 1,
      tree = replicate (2 ^ (nat lv + 1) - 1) [], leaf_space = 2 ^ nat lv,
      position = pos, stash = []\<rparr>"
  define order where "order = fst (shuffle R [0..<N s0] g2)"
  define g3 where "g3 = snd (shuffle R [0..<N s0] g2)"
  have dp: "length pos = nat n" "\<forall>p \<in> set pos. p < 2 ^ nat lv"
    using draw_positions_props[OF ok, of "2 ^ nat lv" "nat n" g1] by (simp_all add: pos_def)
  have "nat n \<le> nat (2 ^ nat lv)" using v(4) by (rule nat_mono)
  then have nle: "nat n \<le> 2 ^ nat lv"
    by (metis nat_numeral nat_power_eq zero_le_numeral)
  have sh0: "shape_ok s0"
    using v dp nle by (simp add: shape_ok_def s0_def)
  have ca0: "capacity_ok s0" by (simp add: capacity_ok_def s0_def)
  have su0: "subtree_ok s0" by (simp add: subtree_ok_def s0_def)
  have ab0: "all_blocks s0 = []" by (simp add: all_blocks_def s0_def)
  have mo: "mset order = mset [0..<N s0]" using ok by (simp add: rng_ok_def order_def)
  have do: "distinct order" using mo by (metis distinct_upt mset_eq_imp_distinct_iff)
  have so: "\<forall>a \<in> set order. a < N s0" using mo by (metis atLeastLessThan_iff mset_eq_setD set_upt)
  from place_blocks_props[OF sh0 ca0 su0 so do] ab0 obtain s' where
    s': "place_blocks order s0 = (Inr (), s')" "shape_ok s'" "capacity_ok s'" "subtree_ok s'"
      "mset (map fst (all_blocks s')) = mset order + mset (map fst (all_blocks s0))"
      "N s' = N s0" "Z s' = Z s0" "L s' = L s0"
    by auto
  have co': "conserved s'" using s'(5,6) mo ab0 by (simp add: conserved_def)
  have ipb: "initial_place_blocks R (g2, s0) = (Inr (), g3, s')"
    using s'(1) by (simp add: initial_place_blocks_def order_def g3_def case_prod_unfold)
  have "PathORAM R n z lv seed g = (Inr s', g3)"
    using v ipb
    unfolding PathORAM_def Let_def s0_def pos_def g2_def g1_def
    by (simp add: push_bit_eq_mult case_prod_unfold)
  then show ?thesis
    using s'(2,3,4,6,7,8) co' by (simp add: engine_inv_def s0_def)
qed

lemma reachable_inv:
  assumes "rng_ok R" "reachable R s"
  shows "engine_inv s"
  using assms(2)
proof (induction rule: reachable.induct)
  case (constructed n z lv seed g s g')
  show ?case
  proof (cases "0 < n \<and> 0 < z \<and> 1 \<le> lv \<and> n \<le> 2 ^ nat lv")
    case True
    with PathORAM_valid[OF assms(1), of n z lv seed g] constructed show ?thesis by auto
  next
    case False
    from PathORAM_invalid[OF this, of R seed g] constructed show ?thesis by simp
  qed
next
  case (accessed s op a new_data g old g' s')
  have v: "0 \<le> a \<and> a < int (N s) \<and> (op = ''read'' \<or> op = ''write'')"
    using accessed.hyps(2) by (auto simp: access_def split: if_splits)
  with access_spec[OF assms(1) accessed.IH, of a op new_data g] accessed.hyps(2)
  show ?case by auto
qed

subsection \<open>Tail counts\<close>

lemma build_hist_props:
  assumes "\<forall>v \<in> set vals. v < length hist"
  shows "\<exists>h. build_hist vals hist = Inr h \<and> length h = length hist \<and>
           (\<forall>k < length hist. h ! k = hist ! k + count_list vals k)"
  using assms
proof (induction vals arbitrary: hist)
  case Nil
  then show ?case by simp
next
  case (Cons v vals)
  define hist1 where "hist1 = hist[v := hist ! v + 1]"
  have v: "v < length hist" using Cons.prems by simp
  have "\<forall>v \<in> set vals. v < length hist1" using Cons.prems by (simp add: hist1_def)
  from Cons.IH[OF this] obtain h where
    h: "build_hist vals hist1 = Inr h" "length h = length hist1"
      "\<forall>k < length hist1. h ! k = hist1 ! k + count_list vals k"
    by blast
  have "build_hist (v # vals) hist = Inr h" using v h(1) by (simp add: hist1_def)
  moreover have "length h = length hist" using h(2) by (simp add: hist1_def)
  moreover have "\<forall>k < length hist. h ! k = hist ! k + count_list (v # vals) k"
    using h(3) v by (auto simp: hist1_def nth_list_update)
  ultimately show ?case by blast
qed

lemma build_suffix_props:
  assumes "m \<le> length hist" "m \<le> length sg"
  shows "\<exists>sg' r'. build_suffix hist (rev [0..<m]) (sg, r) = Inr (sg', r') \<and>
           length sg' = length sg \<and>
           (\<forall>k < m. sg' ! k = r + (\<Sum>j = k..<m. hist ! j)) \<and>
           (\<forall>k. m \<le> k \<longrightarrow> sg' ! k = sg ! k)"
  using assms
proof (induction m arbitrary: sg r)
  case 0
  then show ?case by simp
next
  case (Suc m)
  define sg1 where "sg1 = sg[m := r + hist ! m]"
  define r1 where "r1 = r + hist ! m"
  have m: "m < length hist" "m < length sg" using Suc.prems by simp_all
  have step: "build_suffix hist (rev [0..<Suc m]) (sg, r) = build_suffix hist (rev [0..<m]) (sg1, r1)"
    using m by (simp add: sg1_def r1_def)
  have "m \<le> length hist" "m \<le> length sg1" using m by (simp_all add: sg1_def)
  from Suc.IH[OF this, of r1] obtain sg' r' where
    s: "build_suffix hist (rev [0..<m]) (sg1, r1) = Inr (sg', r')" "length sg' = length sg1"
      "\<forall>k < m. sg' ! k = r1 + (\<Sum>j = k..<m. hist ! j)"
      "\<forall>k. m \<le> k \<longrightarrow> sg' ! k = sg1 ! k"
    by blast
  have a: "\<forall>k < Suc m. sg' ! k = r + (\<Sum>j = k..<Suc m. hist ! j)"
  proof (intro allI impI)
    fix k assume k: "k < Suc m"
    show "sg' ! k = r + (\<Sum>j = k..<Suc m. hist ! j)"
    proof (cases "k = m")
      case True
      then show ?thesis using s(4) m by (simp add: sg1_def)
    next
      case False
      then have "k < m" using k by simp
      then show ?thesis using s(3) by (simp add: r1_def)
    qed
  qed
  have b: "\<forall>k. Suc m \<le> k \<longrightarrow> sg' ! k = sg ! k" using s(4) by (simp add: sg1_def)
  show ?case unfolding step using s(1,2) a b by (simp add: sg1_def)
qed

lemma sum_count_list:
  fixes vals :: "nat list"
  shows "(\<Sum>j = k..<m. count_list vals j) = length (filter (\<lambda>v. k \<le> v \<and> v < m) vals)"
proof (induction vals)
  case Nil
  then show ?case by simp
next
  case (Cons v vals)
  have "(\<Sum>j = k..<m. count_list (v # vals) j) =
        (\<Sum>j = k..<m. count_list vals j) + (\<Sum>j = k..<m. if v = j then 1 else 0)"
  proof -
    have "count_list (v # vals) j = count_list vals j + (if v = j then 1 else 0)" for j by simp
    then show ?thesis by (simp only: sum.distrib)
  qed
  also have "(\<Sum>j = k..<m. if v = j then 1 else 0) = (if k \<le> v \<and> v < m then 1 else (0::nat))"
  proof -
    have "(\<Sum>j \<in> {k..<m}. if v = j then 1 else 0) = (if v \<in> {k..<m} then 1 else (0::nat))"
      by (rule sum.delta') simp
    then show ?thesis by (simp only: atLeastLessThan_iff)
  qed
  finally show ?case using Cons by simp
qed

lemma build_tail_props:
  assumes "\<forall>i \<in> set ks. i + 1 \<le> ms \<longrightarrow> i + 1 < length sg"
  shows "\<exists>tc'. build_tail ms sg ks tc = Inr tc' \<and>
           (\<forall>k. map_of tc' k =
              (if k \<in> set ks then Some (if k + 1 \<le> ms then sg ! (k + 1) else 0) else map_of tc k))"
  using assms
proof (induction ks arbitrary: tc)
  case Nil
  then show ?case by simp
next
  case (Cons i ks)
  define tc1 where "tc1 = dict_set i (if i + 1 \<le> ms then sg ! (i + 1) else 0) tc"
  have step: "build_tail ms sg (i # ks) tc = build_tail ms sg ks tc1"
    using Cons.prems by (simp add: tc1_def)
  have "\<forall>i \<in> set ks. i + 1 \<le> ms \<longrightarrow> i + 1 < length sg" using Cons.prems by simp
  from Cons.IH[OF this, of tc1] obtain tc' where
    t: "build_tail ms sg ks tc1 = Inr tc'"
      "\<forall>k. map_of tc' k =
         (if k \<in> set ks then Some (if k + 1 \<le> ms then sg ! (k + 1) else 0) else map_of tc1 k)"
    by blast
  have "\<forall>k. map_of tc' k =
      (if k \<in> set (i # ks) then Some (if k + 1 \<le> ms then sg ! (k + 1) else 0) else map_of tc k)"
    using t(2) by (simp add: tc1_def dict_set_map_of)
  then show ?case unfolding step using t(1) by blast
qed

lemma tail_stats_props:
  fixes recorded :: "nat list"
  defines "ms \<equiv> (if recorded \<noteq> [] then Max (set recorded) else 0)"
  shows "\<exists>tc. tail_stats recorded = Inr (tc, ms, length recorded) \<and>
           (\<forall>i. map_of tc i =
              (if i \<le> ms then Some (length (filter (\<lambda>v. i < v) recorded)) else None))"
proof -
  have le: "\<forall>v \<in> set recorded. v \<le> ms" by (auto simp: ms_def)
  define hist0 where "hist0 = replicate (ms + 1) (0::nat)"
  have h0: "length hist0 = ms + 1" "\<forall>k < ms + 1. hist0 ! k = 0"
    unfolding hist0_def by (rule length_replicate, intro allI impI nth_replicate)
  have "\<forall>v \<in> set recorded. v < length hist0" using le h0(1) by auto
  from build_hist_props[OF this] obtain hist where
    h': "build_hist recorded hist0 = Inr hist" "length hist = length hist0"
      "\<forall>k < length hist0. hist ! k = hist0 ! k + count_list recorded k"
    by blast
  have h: "build_hist recorded (replicate (ms + 1) 0) = Inr hist" "length hist = ms + 1"
      "\<forall>k < ms + 1. hist ! k = count_list recorded k"
  proof -
    show "build_hist recorded (replicate (ms + 1) 0) = Inr hist" using h'(1) by (simp only: hist0_def)
    show "length hist = ms + 1" using h'(2) h0(1) by simp
    show "\<forall>k < ms + 1. hist ! k = count_list recorded k" using h'(3) h0 by simp
  qed
  have "ms + 1 \<le> length hist" "ms + 1 \<le> length (replicate (ms + 2) (0::nat))"
    using h(2) by simp_all
  from build_suffix_props[OF this, of 0] obtain sg r' where
    s: "build_suffix hist (rev [0..<ms + 1]) (replicate (ms + 2) 0, 0) = Inr (sg, r')"
      "length sg = ms + 2" "\<forall>k < ms + 1. sg ! k = (\<Sum>j = k..<ms + 1. hist ! j)"
    by auto
  have sgk: "sg ! k = length (filter (\<lambda>v. k \<le> v) recorded)" if "k \<le> ms" for k
  proof -
    have "sg ! k = (\<Sum>j = k..<ms + 1. count_list recorded j)"
      using s(3) h(3) that by simp
    also have "\<dots> = length (filter (\<lambda>v. k \<le> v \<and> v < ms + 1) recorded)"
      by (rule sum_count_list)
    also have "filter (\<lambda>v. k \<le> v \<and> v < ms + 1) recorded = filter (\<lambda>v. k \<le> v) recorded"
      using le by (intro filter_cong) auto
    finally show ?thesis .
  qed
  have "\<forall>i \<in> set [0..<ms + 1]. i + 1 \<le> ms \<longrightarrow> i + 1 < length sg" using s(2) by simp
  from build_tail_props[OF this, of "[]"] obtain tc where
    t: "build_tail ms sg [0..<ms + 1] [] = Inr tc"
      "\<forall>k. map_of tc k =
         (if k \<in> set [0..<ms + 1] then Some (if k + 1 \<le> ms then sg ! (k + 1) else 0)
          else map_of [] k)"
    by blast
  have run: "tail_stats recorded = Inr (tc, ms, length recorded)"
    unfolding tail_stats_def ms_def[symmetric] Let_def
    by (simp only: h(1) s(1) t(1) sum.case prod.case)
  have "map_of tc i = (if i \<le> ms then Some (length (filter (\<lambda>v. i < v) recorded)) else None)" for i
  proof (cases "i \<le> ms")
    case False
    then show ?thesis using t(2) by simp
  next
    case True
    show ?thesis
    proof (cases "i + 1 \<le> ms")
      case in_range: True
      have "filter (\<lambda>v. i + 1 \<le> v) recorded = filter (\<lambda>v. i < v) recorded"
        by (intro filter_cong) auto
      then show ?thesis using t(2) True in_range sgk[OF in_range] by simp
    next
      case False
      then have "i = ms" using True by simp
      then have "filter (\<lambda>v. i < v) recorded = []" using le by (auto simp: filter_empty_conv)
      then show ?thesis using t(2) True False by simp
    qed
  qed
  then show ?thesis using run by blast
qed

lemma simulate_loop_props:
  assumes ok: "rng_ok R"
  shows "engine_inv s \<Longrightarrow> blk < N s \<Longrightarrow> length versions = N s \<Longrightarrow>
         \<exists>versions' recorded' blk' g' s'.
           simulate_loop R w ts (versions, recorded, blk) (g, s) =
             (Inr (versions', recorded', blk'), g', s') \<and>
           engine_inv s' \<and>
           length recorded' = length recorded + length (filter (\<lambda>t. w \<le> t) ts)"
proof (induction ts arbitrary: versions recorded blk g s)
  case Nil
  then show ?case by simp
next
  case (Cons t ts)
  define rbit where "rbit = fst (getrandbits R 1 g)"
  define g1 where "g1 = snd (getrandbits R 1 g)"
  define blk' where "blk' = (if blk + 1 = N s then 0 else blk + 1)"
  define op where "op = (if rbit \<noteq> 0 then ''write'' else ''read'')"
  define versions' where "versions' = (if rbit \<noteq> 0 then versions[blk := versions ! blk + 1] else versions)"
  define nd where "nd = (if rbit \<noteq> 0 then PyPair (int blk) (versions' ! blk) else PyNone)"
  have a: "0 \<le> int blk" "int blk < int (N s)" using Cons.prems(2) by simp_all
  have op: "op = ''read'' \<or> op = ''write''" by (simp add: op_def)
  from access_spec[OF ok Cons.prems(1) a op, of nd g1] obtain old g2 s2 where
    acc: "access R op (int blk) nd (g1, s) = (Inr old, g2, s2)" "engine_inv s2" "N s2 = N s"
    by blast
  define recorded1 where "recorded1 = (if w \<le> t then recorded @ [length (stash s2)] else recorded)"
  have step: "simulate_loop R w (t # ts) (versions, recorded, blk) (g, s) =
              simulate_loop R w ts (versions', recorded1, blk') (g2, s2)"
  proof -
    have gr: "getrandbits R 1 g = (rbit, g1)" by (simp add: rbit_def g1_def)
    have lt: "blk < length versions" using Cons.prems(2,3) by simp
    show ?thesis
    proof (cases "rbit \<noteq> 0")
      case True
      then have e: "access R ''write'' (int blk)
                   (PyPair (int blk) (versions[blk := versions ! blk + 1] ! blk)) (g1, s) =
                 (Inr old, g2, s2)"
        using acc(1) by (simp add: op_def nd_def versions'_def)
      show ?thesis
        unfolding versions'_def recorded1_def blk'_def
        by (simp only: simulate_loop.simps prod.case sum.case Let_def gr e True lt
            if_True if_False simp_thms)
    next
      case False
      then have z: "(rbit \<noteq> 0) = False" by simp
      from False have e: "access R ''read'' (int blk) PyNone (g1, s) = (Inr old, g2, s2)"
        using acc(1) by (simp add: op_def nd_def)
      show ?thesis
        unfolding versions'_def recorded1_def blk'_def
        by (simp only: simulate_loop.simps prod.case sum.case Let_def gr e z
            if_True if_False simp_thms)
    qed
  qed
  have b': "blk' < N s2" using Cons.prems(2) acc(3) by (simp add: blk'_def)
  have v': "length versions' = N s2" using Cons.prems(3) acc(3) by (simp add: versions'_def)
  from Cons.IH[OF acc(2) b' v', of recorded1 g2] obtain vs rc bk g' s' where
    r: "simulate_loop R w ts (versions', recorded1, blk') (g2, s2) = (Inr (vs, rc, bk), g', s')"
      "engine_inv s'" "length rc = length recorded1 + length (filter (\<lambda>t. w \<le> t) ts)"
    by blast
  have "length rc = length recorded + length (filter (\<lambda>t. w \<le> t) (t # ts))"
    using r(3) by (simp add: recorded1_def)
  then show ?case unfolding step using r(1,2) by blast
qed

subsection \<open>Runs\<close>

lemma access_all_props:
  assumes ok: "rng_ok R"
  shows "engine_inv s \<Longrightarrow>
         \<forall>c \<in> set cs. 0 \<le> fst (snd c) \<and> fst (snd c) < int (N s) \<and>
            (fst c = ''read'' \<or> fst c = ''write'') \<Longrightarrow>
         \<exists>olds g' s'. access_all R cs (g, s) = (Inr olds, g', s') \<and>
           length olds = length cs \<and> engine_inv s'"
proof (induction cs arbitrary: g s)
  case Nil
  then show ?case by simp
next
  case (Cons c cs)
  obtain op a nd where c: "c = (op, a, nd)" by (cases c) auto
  have v: "0 \<le> a" "a < int (N s)" "op = ''read'' \<or> op = ''write''"
    using Cons.prems(2) by (simp_all add: c)
  from access_spec[OF ok Cons.prems(1) v, of nd g] obtain old g1 s1 where
    acc: "access R op a nd (g, s) = (Inr old, g1, s1)" "engine_inv s1" "N s1 = N s"
    by blast
  have "\<forall>c \<in> set cs. 0 \<le> fst (snd c) \<and> fst (snd c) < int (N s1) \<and>
          (fst c = ''read'' \<or> fst c = ''write'')"
    using Cons.prems(2) acc(3) by simp
  from Cons.IH[OF acc(2) this, of g1] obtain olds g' s' where
    r: "access_all R cs (g1, s1) = (Inr olds, g', s')" "length olds = length cs" "engine_inv s'"
    by blast
  have "access_all R (c # cs) (g, s) = (Inr (old # olds), g', s')"
    by (simp add: c acc(1) r(1))
  then show ?case using r(2,3) by simp
qed

lemma PathORAM_seeded:
  "fst (PathORAM R n z lv (Some sd) g1) = fst (PathORAM R n z lv (Some sd) g2) \<and>
   (\<forall>s. fst (PathORAM R n z lv (Some sd) g1) = Inr s \<longrightarrow>
      PathORAM R n z lv (Some sd) g1 = PathORAM R n z lv (Some sd) g2)"
  by (simp add: PathORAM_def Let_def)

lemma run_seeded: "run R n z lv (Some sd) cs g1 = run R n z lv (Some sd) cs g2"
proof (cases "fst (PathORAM R n z lv (Some sd) g1)")
  case (Inl e)
  then have "fst (PathORAM R n z lv (Some sd) g2) = Inl e"
    using PathORAM_seeded[of R n z lv sd g1 g2] by simp
  with Inl show ?thesis by (simp add: run_def case_prod_unfold)
next
  case (Inr s)
  then have "PathORAM R n z lv (Some sd) g1 = PathORAM R n z lv (Some sd) g2"
    using PathORAM_seeded[of R n z lv sd g1 g2] by simp
  then show ?thesis by (simp add: run_def)
qed

lemma access_all_keeps:
  assumes ok: "rng_ok R"
  shows "engine_inv s \<Longrightarrow> (b, v) \<in> set (all_blocks s) \<Longrightarrow>
         \<forall>c \<in> set cs. 0 \<le> fst (snd c) \<and> fst (snd c) < int (N s) \<and> nat (fst (snd c)) \<noteq> b \<and>
            (fst c = ''read'' \<or> fst c = ''write'') \<Longrightarrow>
         \<exists>olds g' s'. access_all R cs (g, s) = (Inr olds, g', s') \<and>
           engine_inv s' \<and> N s' = N s \<and> (b, v) \<in> set (all_blocks s')"
proof (induction cs arbitrary: g s)
  case Nil
  then show ?case by simp
next
  case (Cons c cs)
  obtain op a nd where c: "c = (op, a, nd)" by (cases c) auto
  have v: "0 \<le> a" "a < int (N s)" "op = ''read'' \<or> op = ''write''" and ne: "nat a \<noteq> b"
    using Cons.prems(3) by (simp_all add: c)
  from access_spec[OF ok Cons.prems(1) v, of nd g] obtain old g1 s1 where
    acc: "access R op a nd (g, s) = (Inr old, g1, s1)" "engine_inv s1" "N s1 = N s"
      "set (all_blocks s1) =
         (if op = ''write'' then insert (nat a, nd) (set (all_blocks s) - {(nat a, old)})
          else set (all_blocks s))"
    by blast
  have k: "(b, v) \<in> set (all_blocks s1)" unfolding acc(4) using Cons.prems(2) ne by auto
  have "\<forall>c \<in> set cs. 0 \<le> fst (snd c) \<and> fst (snd c) < int (N s1) \<and> nat (fst (snd c)) \<noteq> b \<and>
          (fst c = ''read'' \<or> fst c = ''write'')"
    using Cons.prems(3) acc(3) by simp
  from Cons.IH[OF acc(2) k this, of g1] obtain olds g' s' where
    r: "access_all R cs (g1, s1) = (Inr olds, g', s')" "engine_inv s'" "N s' = N s1"
      "(b, v) \<in> set (all_blocks s')"
    by blast
  have "access_all R (c # cs) (g, s) = (Inr (old # olds), g', s')"
    by (simp add: c acc(1) r(1))
  then show ?case using r(2,3,4) acc(3) by simp
qed

subsection \<open>The example engine\<close>

lemma counter_rng_ok: "rng_ok counter_rng"
  by (simp add: rng_ok_def counter_rng_def)

lemma example_constructed: "PathORAM counter_rng 4 2 2 (Some 1) 0 = (Inr example_engine, 6)"
  by code_simp

lemma example_reachable: "reachable counter_rng example_engine"
  by (rule reachable.constructed[OF example_constructed])

lemma engine_inv_subtree_correct:
  assumes "engine_inv s"
  shows "subtree_correct s"
  unfolding subtree_correct_def
proof (intro ballI impI)
  fix l idx blk
  assume l: "l \<in> set [0..<L s + 1]" and idx: "idx \<in> set [0..<2 ^ l]"
    and blk: "blk \<in> set (tree s ! node_index l idx)" and pos: "0 < l"
  from assms have sh: "shape_ok s" and co: "conserved s" and su: "subtree_ok s"
    by (simp_all add: engine_inv_def)
  have l': "l \<le> L s" and idx': "idx < 2 ^ l" using l idx by auto
  have il: "node_index l idx < length (tree s)"
    using node_index_less[OF l' idx'] sh by (simp add: shape_ok_def)
  then have "blk \<in> set (all_blocks s)"
    using blk by (auto simp: all_blocks_def in_concat_nth)
  then have "fst blk < N s" using conserved_ids[OF co] by force
  then have "position s ! fst blk < 2 ^ L s" using sh by (simp add: shape_ok_def)
  moreover have "node_index l idx \<in> set (path_indices (L s) (position s ! fst blk))"
    using su il blk by (simp add: subtree_ok_def)
  ultimately show "drop_bit (L s - l) (position s ! fst blk) = idx"
    using on_path_level[OF _ idx' _ pos] by blast
qed

section \<open>Properties of the specification\<close>

text \<open>
  C1 (conservation). Over a random source that keeps the library's promises: construction
  with valid parameters \<open>N > 0\<close>, \<open>Z > 0\<close>, \<open>L \<ge> 1\<close>, \<open>2^L \<ge> N\<close> returns an object whose \<open>N\<close> is
  the parameter and which holds each block id of \<open>[0, N)\<close> exactly once across all buckets
  and the stash; every object that the constructor returned or that a returning \<open>access\<close>
  left behind holds each id of \<open>[0, N)\<close> exactly once; and on such an object every \<open>access\<close>
  with a valid \<open>op\<close> and block id returns, keeps \<open>N\<close>, and leaves each id of \<open>[0, N)\<close>, for
  the \<open>N\<close> before the call, exactly once across all buckets and the stash.
\<close>

theorem conservation:
  assumes "rng_ok R" "reachable R s"
  shows "(0 < n \<and> 0 < z \<and> 1 \<le> lv \<and> n \<le> 2 ^ nat lv \<longrightarrow>
            (\<exists>s0 g0'. PathORAM R n z lv seed g0 = (Inr s0, g0') \<and> N s0 = nat n \<and>
               mset (map fst (all_blocks s0)) = mset [0..<nat n])) \<and>
         conserved s \<and>
         (0 \<le> a \<and> a < int (N s) \<and> (op = ''read'' \<or> op = ''write'') \<longrightarrow>
            (\<exists>old g' s'. access R op a new_data (g, s) = (Inr old, g', s') \<and>
               N s' = N s \<and> mset (map fst (all_blocks s')) = mset [0..<N s]))"
proof -
  have inv: "engine_inv s" by (rule reachable_inv[OF assms])
  then have "conserved s" by (simp add: engine_inv_def)
  moreover have "\<exists>old g' s'. access R op a new_data (g, s) = (Inr old, g', s') \<and>
      N s' = N s \<and> mset (map fst (all_blocks s')) = mset [0..<N s]"
    if "0 \<le> a" "a < int (N s)" "op = ''read'' \<or> op = ''write''"
  proof -
    from access_spec[OF assms(1) inv that, of new_data g] obtain old g' s' where
      acc: "access R op a new_data (g, s) = (Inr old, g', s')" "engine_inv s'" "N s' = N s"
      by blast
    from acc(2,3) have "mset (map fst (all_blocks s')) = mset [0..<N s]"
      by (simp add: engine_inv_def conserved_def)
    then show ?thesis using acc(1,3) by blast
  qed
  moreover have "\<exists>s0 g0'. PathORAM R n z lv seed g0 = (Inr s0, g0') \<and> N s0 = nat n \<and>
      mset (map fst (all_blocks s0)) = mset [0..<nat n]"
    if "0 < n" "0 < z" "1 \<le> lv" "n \<le> 2 ^ nat lv"
    using PathORAM_valid[OF assms(1) that, of seed g0]
    by (auto simp: engine_inv_def conserved_def)
  ultimately show ?thesis by blast
qed

theorem conservation_witness:
  "rng_ok counter_rng \<and> reachable counter_rng example_engine \<and>
   (\<exists>s0 g0'. PathORAM counter_rng 4 2 2 (Some 1) 0 = (Inr s0, g0') \<and> N s0 = nat 4 \<and>
      mset (map fst (all_blocks s0)) = mset [0..<nat 4]) \<and>
   conserved example_engine \<and>
   (\<exists>old g' s'. access counter_rng ''write'' 0 (PyStr ''x'') (6, example_engine) = (Inr old, g', s') \<and>
      N s' = N example_engine \<and> mset (map fst (all_blocks s')) = mset [0..<N example_engine])"
proof -
  have v: "0 \<le> (0::int) \<and> 0 < int (N example_engine) \<and> (''write'' = ''read'' \<or> ''write'' = ''write'')"
    by (simp add: example_engine_def)
  have p: "0 < (4::int) \<and> 0 < (2::int) \<and> 1 \<le> (2::int) \<and> (4::int) \<le> 2 ^ nat 2"
    by simp
  show ?thesis
    using conservation[OF counter_rng_ok example_reachable,
        where n = 4 and z = 2 and lv = 2 and seed = "Some 1" and ?g0.0 = 0 and a = 0
          and op = "''write''" and new_data = "PyStr ''x''" and g = 6]
      counter_rng_ok example_reachable v p
    by blast
qed

text \<open>
  C2 (capacity). Under the same conditions every bucket of the tree holds at most \<open>Z\<close>
  pairs, after construction and after every valid \<open>access\<close>.
\<close>

theorem capacity_invariant:
  assumes "rng_ok R" "reachable R s"
  shows "capacity_ok s \<and>
         (0 \<le> a \<and> a < int (N s) \<and> (op = ''read'' \<or> op = ''write'') \<longrightarrow>
            (\<exists>old g' s'. access R op a new_data (g, s) = (Inr old, g', s') \<and> capacity_ok s'))"
proof -
  have inv: "engine_inv s" by (rule reachable_inv[OF assms])
  then have "capacity_ok s" by (simp add: engine_inv_def)
  moreover have "\<exists>old g' s'. access R op a new_data (g, s) = (Inr old, g', s') \<and> capacity_ok s'"
    if "0 \<le> a" "a < int (N s)" "op = ''read'' \<or> op = ''write''"
    using access_spec[OF assms(1) inv that, of new_data g] by (auto simp: engine_inv_def)
  ultimately show ?thesis by blast
qed

theorem capacity_invariant_witness:
  "rng_ok counter_rng \<and> reachable counter_rng example_engine \<and> capacity_ok example_engine \<and>
   (\<exists>old g' s'. access counter_rng ''read'' 3 PyNone (9, example_engine) = (Inr old, g', s') \<and>
      capacity_ok s')"
  using capacity_invariant[OF counter_rng_ok example_reachable, of 3 "''read''" PyNone 9]
    counter_rng_ok example_reachable
  by (simp add: example_engine_def)

text \<open>
  C3 (subtree-correctness of eviction). After any valid \<open>access\<close> on a reachable object,
  every block in the bucket at \<open>(l, idx)\<close> with \<open>l > 0\<close> has a current position \<open>p\<close> with
  \<open>p >> (L - l) = idx\<close>; level 0 always qualifies.
\<close>

theorem subtree_correctness:
  assumes "rng_ok R" "reachable R s" "0 \<le> a" "a < int (N s)" "op = ''read'' \<or> op = ''write''"
  shows "\<exists>old g' s'. access R op a new_data (g, s) = (Inr old, g', s') \<and> subtree_correct s'"
  using access_spec[OF assms(1) reachable_inv[OF assms(1,2)] assms(3,4,5), of new_data g]
    engine_inv_subtree_correct by blast

theorem subtree_correctness_witness:
  "rng_ok counter_rng \<and> reachable counter_rng example_engine \<and>
   (\<exists>old g' s'. access counter_rng ''write'' 1 (PyStr ''y'') (2, example_engine) = (Inr old, g', s') \<and>
      subtree_correct s')"
  using subtree_correctness[OF counter_rng_ok example_reachable, of 1 "''write''" "PyStr ''y''" 2]
    counter_rng_ok example_reachable
  by (simp add: example_engine_def)

text \<open>
  C7 (access fails fast). On any object, \<open>access\<close> with a block id outside \<open>[0, N)\<close> or with
  an \<open>op\<close> other than \<open>read\<close> and \<open>write\<close> raises \<open>AssertionError\<close> and leaves the tree, the
  stash, the position map and the random source as they were.
\<close>

theorem access_fail_fast:
  assumes "\<not> (0 \<le> a \<and> a < int (N s)) \<or> \<not> (op = ''read'' \<or> op = ''write'')"
  shows "access R op a new_data (g, s) = (Inl AssertionError, g, s)"
  using assms by (auto simp: access_def)

theorem access_fail_fast_witness:
  "access counter_rng ''read'' 4 PyNone (6, example_engine) = (Inl AssertionError, 6, example_engine) \<and>
   access counter_rng ''delete'' 0 PyNone (6, example_engine) = (Inl AssertionError, 6, example_engine)"
  using access_fail_fast[of 4 example_engine "''read''" counter_rng PyNone 6]
    access_fail_fast[of 0 example_engine "''delete''" counter_rng PyNone 6]
  by (simp add: example_engine_def)

text \<open>
  C8 (construction validation). \<open>PathORAM(N, Z, L, seed)\<close> raises \<open>AssertionError\<close>, with the
  random source untouched and no object built, when \<open>N \<le> 0\<close> or \<open>Z \<le> 0\<close> or \<open>L < 1\<close> or
  \<open>2^L < N\<close>; for all other parameters it returns an object with these parameters.
\<close>

theorem construction_validation:
  assumes "rng_ok R"
  shows "if n \<le> 0 \<or> z \<le> 0 \<or> lv < 1 \<or> 2 ^ nat lv < n
         then PathORAM R n z lv seed g = (Inl AssertionError, g)
         else (\<exists>s g'. PathORAM R n z lv seed g = (Inr s, g') \<and>
                 N s = nat n \<and> Z s = nat z \<and> L s = nat lv)"
proof (cases "n \<le> 0 \<or> z \<le> 0 \<or> lv < 1 \<or> 2 ^ nat lv < n")
  case True
  then have "\<not> (0 < n \<and> 0 < z \<and> 1 \<le> lv \<and> n \<le> 2 ^ nat lv)" by auto
  from PathORAM_invalid[OF this] True show ?thesis by simp
next
  case False
  then have "0 < n" "0 < z" "1 \<le> lv" "n \<le> 2 ^ nat lv" by auto
  from PathORAM_valid[OF assms this, of seed g] False show ?thesis by auto
qed

theorem construction_validation_witness:
  "rng_ok counter_rng \<and>
   PathORAM counter_rng 5 2 2 (Some 1) 3 = (Inl AssertionError, 3) \<and>
   (\<exists>s g'. PathORAM counter_rng 4 2 2 None 3 = (Inr s, g') \<and> N s = 4 \<and> Z s = 2 \<and> L s = 2)"
  using construction_validation[OF counter_rng_ok, of 5 2 2 "Some 1" 3]
    construction_validation[OF counter_rng_ok, of 4 2 2 None 3] counter_rng_ok
  by simp

text \<open>
  C4 (read/write correctness). On a reachable object, for a valid block id \<open>a\<close> and any
  value \<open>v\<close>: \<open>access("write", a, v)\<close> returns, any valid calls of \<open>access\<close> on other
  blocks that follow it return, and the \<open>access("read", a)\<close> after them returns \<open>v\<close>,
  whatever the random source holds at that call. With no call in between, the read follows
  the write immediately.
\<close>

theorem read_after_write:
  assumes "rng_ok R" "reachable R s" "0 \<le> a" "a < int (N s)"
    and "\<forall>c \<in> set cs. 0 \<le> fst (snd c) \<and> fst (snd c) < int (N s) \<and> fst (snd c) \<noteq> a \<and>
           (fst c = ''read'' \<or> fst c = ''write'')"
  shows "\<exists>old g1 s1 olds g2 s2 g4 s3.
           access R ''write'' a v (g, s) = (Inr old, g1, s1) \<and>
           access_all R cs (g1, s1) = (Inr olds, g2, s2) \<and>
           access R ''read'' a new_data (g3, s2) = (Inr v, g4, s3)"
proof -
  have inv: "engine_inv s" by (rule reachable_inv[OF assms(1,2)])
  from access_spec[OF assms(1) inv assms(3,4), of "''write''" v g] obtain old g1 s1 where
    w: "access R ''write'' a v (g, s) = (Inr old, g1, s1)" "engine_inv s1" "N s1 = N s"
      "set (all_blocks s1) = insert (nat a, v) (set (all_blocks s) - {(nat a, old)})"
    by auto
  have k1: "(nat a, v) \<in> set (all_blocks s1)" using w(4) by simp
  have "\<forall>c \<in> set cs. 0 \<le> fst (snd c) \<and> fst (snd c) < int (N s1) \<and> nat (fst (snd c)) \<noteq> nat a \<and>
          (fst c = ''read'' \<or> fst c = ''write'')"
    using assms(3,5) w(3) by auto
  from access_all_keeps[OF assms(1) w(2) k1 this, of g1] obtain olds g2 s2 where
    m: "access_all R cs (g1, s1) = (Inr olds, g2, s2)" "engine_inv s2" "N s2 = N s1"
      "(nat a, v) \<in> set (all_blocks s2)"
    by blast
  have a2: "a < int (N s2)" using assms(4) w(3) m(3) by simp
  from access_spec[OF assms(1) m(2) assms(3) a2, of "''read''" new_data g3] obtain old' g4 s3 where
    r: "access R ''read'' a new_data (g3, s2) = (Inr old', g4, s3)"
      "(nat a, old') \<in> set (all_blocks s2)"
    by auto
  have d: "distinct (map fst (all_blocks s2))"
    using m(2) by (simp add: engine_inv_def conserved_distinct)
  from distinct_ids_map_of[OF d m(4)] distinct_ids_map_of[OF d r(2)] have "old' = v" by simp
  then show ?thesis using w(1) m(1) r(1) by blast
qed

theorem read_after_write_witness:
  "rng_ok counter_rng \<and> reachable counter_rng example_engine \<and>
   (\<exists>old g1 s1 olds g2 s2 g4 s3.
      access counter_rng ''write'' 0 (PyStr ''y'') (6, example_engine) = (Inr old, g1, s1) \<and>
      access_all counter_rng [(''write'', 2, PyStr ''u''), (''read'', 1, PyNone)] (g1, s1) =
        (Inr olds, g2, s2) \<and>
      access counter_rng ''read'' 0 PyNone (7, s2) = (Inr (PyStr ''y''), g4, s3)) \<and>
   run counter_rng 4 2 2 (Some 1)
     [(''write'', 0, PyStr ''x''), (''write'', 0, PyStr ''y''), (''read'', 0, PyNone)] 0 =
     Inr ([PyInt 0, PyStr ''x'', PyStr ''y''], 0)"
proof -
  have "run counter_rng 4 2 2 (Some 1)
     [(''write'', 0, PyStr ''x''), (''write'', 0, PyStr ''y''), (''read'', 0, PyNone)] 0 =
     Inr ([PyInt 0, PyStr ''x'', PyStr ''y''], 0)"
    by code_simp
  then show ?thesis
    using read_after_write[OF counter_rng_ok example_reachable, of 0
        "[(''write'', 2, PyStr ''u''), (''read'', 1, PyNone)]" "PyStr ''y''" 6 PyNone 7]
      counter_rng_ok example_reachable
    by (simp add: example_engine_def)
qed



text \<open>
  C6 (tail counts). On a reachable object, \<open>simulate(total_ops, warmup_ops)\<close> with
  \<open>total_ops > warmup_ops \<ge> 0\<close> returns; with \<open>recorded\<close> the stash sizes its loop recorded
  (there is at least one) and \<open>max_stash\<close> the largest of them, the returned \<open>tail_counts\<close>
  has, for every \<open>i\<close> from 0 to \<open>max_stash\<close>, \<open>tail_counts[i]\<close> = the number of recorded
  sizes greater than \<open>i\<close>, so \<open>tail_counts[max_stash] = 0\<close>.
\<close>

theorem tail_count_correctness:
  assumes "rng_ok R" "reachable R s" "0 \<le> warmup_ops" "warmup_ops < total_ops"
  shows "\<exists>versions recorded blk tail_counts gs'.
           simulate_loop R (nat warmup_ops) [0..<nat total_ops] (replicate (N s) 0, [], 0) (g, s) =
             (Inr (versions, recorded, blk), gs') \<and>
           recorded \<noteq> [] \<and>
           simulate R total_ops warmup_ops (g, s) =
             (Inr (tail_counts, Max (set recorded), length recorded), gs') \<and>
           (\<forall>i \<le> Max (set recorded).
              map_of tail_counts i = Some (length (filter (\<lambda>v. i < v) recorded))) \<and>
           map_of tail_counts (Max (set recorded)) = Some 0"
proof -
  have inv: "engine_inv s" by (rule reachable_inv[OF assms(1,2)])
  then have n: "0 < N s" by (simp add: engine_inv_def shape_ok_def)
  from simulate_loop_props[OF assms(1) inv n, of "replicate (N s) 0" "nat warmup_ops"
      "[0..<nat total_ops]" "[]" g]
  obtain versions recorded blk g' s' where
    lp: "simulate_loop R (nat warmup_ops) [0..<nat total_ops] (replicate (N s) 0, [], 0) (g, s) =
           (Inr (versions, recorded, blk), g', s')"
      "length recorded = length [] + length (filter (\<lambda>t. nat warmup_ops \<le> t) [0..<nat total_ops])"
    by auto
  have "nat warmup_ops \<in> set (filter (\<lambda>t. nat warmup_ops \<le> t) [0..<nat total_ops])"
    using assms(3,4) by simp
  then have "filter (\<lambda>t. nat warmup_ops \<le> t) [0..<nat total_ops] \<noteq> []"
    by (metis empty_iff list.set(1))
  then have ne: "recorded \<noteq> []" using lp(2) by auto
  from tail_stats_props[of recorded] ne obtain tc where
    ts: "tail_stats recorded = Inr (tc, Max (set recorded), length recorded)"
      "\<forall>i. map_of tc i =
         (if i \<le> Max (set recorded) then Some (length (filter (\<lambda>v. i < v) recorded)) else None)"
    by auto
  have sim: "simulate R total_ops warmup_ops (g, s) =
      (Inr (tc, Max (set recorded), length recorded), g', s')"
    using assms(3,4) by (simp add: simulate_def lp(1) ts(1))
  have "filter (\<lambda>v. Max (set recorded) < v) recorded = []"
    by (auto simp: filter_empty_conv dest: Max_ge[OF finite_set] simp: not_less)
  then have "map_of tc (Max (set recorded)) = Some 0" using ts(2) by simp
  then show ?thesis using lp(1) ne sim ts(2) by auto
qed

theorem tail_count_correctness_witness:
  "rng_ok counter_rng \<and> reachable counter_rng example_engine \<and>
   (\<exists>versions recorded blk tail_counts gs'.
      simulate_loop counter_rng 3 [0..<10] (replicate 4 0, [], 0) (6, example_engine) =
        (Inr (versions, recorded, blk), gs') \<and>
      recorded \<noteq> [] \<and>
      simulate counter_rng 10 3 (6, example_engine) =
        (Inr (tail_counts, Max (set recorded), length recorded), gs') \<and>
      (\<forall>i \<le> Max (set recorded).
         map_of tail_counts i = Some (length (filter (\<lambda>v. i < v) recorded))) \<and>
      map_of tail_counts (Max (set recorded)) = Some 0)"
proof -
  have n: "N example_engine = 4" by (simp add: example_engine_def)
  have t: "nat 10 = 10" "nat 3 = 3" by simp_all
  show ?thesis
    using tail_count_correctness[OF counter_rng_ok example_reachable, of 3 10 6]
      counter_rng_ok example_reachable
    unfolding n t by simp
qed

text \<open>
  C9 (reproducibility). Two runs that construct an engine with the same valid
  \<open>(N, Z, L, seed)\<close>, the seed given, and then make the same valid calls of \<open>access\<close>, with
  nothing else drawing from the random source, return the same values and end with the
  same stash size, whatever the random source held before each construction.
\<close>

theorem reproducibility:
  assumes "rng_ok R" "0 < n" "0 < z" "1 \<le> lv" "n \<le> 2 ^ nat lv"
    and "\<forall>c \<in> set cs. 0 \<le> fst (snd c) \<and> fst (snd c) < n \<and> (fst c = ''read'' \<or> fst c = ''write'')"
  shows "\<exists>olds k. run R n z lv (Some sd) cs g1 = Inr (olds, k) \<and>
           run R n z lv (Some sd) cs g2 = Inr (olds, k) \<and> length olds = length cs"
proof -
  from PathORAM_valid[OF assms(1,2,3,4,5), of "Some sd" g1] obtain s g' where
    c: "PathORAM R n z lv (Some sd) g1 = (Inr s, g')" "engine_inv s" "N s = nat n"
    by blast
  have "\<forall>c \<in> set cs. 0 \<le> fst (snd c) \<and> fst (snd c) < int (N s) \<and>
          (fst c = ''read'' \<or> fst c = ''write'')"
    using assms(6) c(3) by auto
  from access_all_props[OF assms(1) c(2) this, of g'] obtain olds g'' s' where
    r: "access_all R cs (g', s) = (Inr olds, g'', s')" "length olds = length cs"
    by blast
  have "run R n z lv (Some sd) cs g1 = Inr (olds, length (stash s'))"
    by (simp add: run_def c(1) r(1))
  then show ?thesis using run_seeded[of R n z lv sd cs g1 g2] r(2) by auto
qed

theorem reproducibility_witness:
  "rng_ok counter_rng \<and>
   (\<exists>olds k.
      run counter_rng 4 2 2 (Some 1) [(''write'', 0, PyStr ''x''), (''read'', 3, PyNone)] 0 =
        Inr (olds, k) \<and>
      run counter_rng 4 2 2 (Some 1) [(''write'', 0, PyStr ''x''), (''read'', 3, PyNone)] 41 =
        Inr (olds, k) \<and>
      length olds = 2)"
  using reproducibility[OF counter_rng_ok, of 4 2 2
      "[(''write'', 0, PyStr ''x''), (''read'', 3, PyNone)]" 1 0 41]
    counter_rng_ok
  by (simp add: eval_nat_numeral)



end
